theory Spec2Isabelle
  imports Main "HOL-Library.Multiset"
begin

section \<open>Strings\<close>

text \<open>
  The crawler of \<^verbatim>\<open>main.py\<close> works on Python \<^verbatim>\<open>str\<close> values: URLs, href
  attributes, the query and the text of a page. They are modelled as \<^typ>\<open>string\<close>,
  one \<^typ>\<open>char\<close> per code point, which covers the code points below 256
  (ASCII and Latin-1).
\<close>

definition lower_char :: "char \<Rightarrow> char" where
  \<comment> \<open>\<^verbatim>\<open>str.lower\<close> on one code point below 256: A-Z, and the capital letters
      U+00C0..U+00DE without the multiplication sign U+00D7, move up by 32.\<close>
  "lower_char c =
     (let n = (of_char c :: nat)
      in if (65 \<le> n \<and> n \<le> 90) \<or> (192 \<le> n \<and> n \<le> 222 \<and> n \<noteq> 215)
         then char_of (n + 32) else c)"

definition lower :: "string \<Rightarrow> string" where
  \<comment> \<open>\<^verbatim>\<open>s.lower()\<close>\<close>
  "lower s = map lower_char s"

definition startswith :: "string \<Rightarrow> string \<Rightarrow> bool" where
  \<comment> \<open>\<^verbatim>\<open>s.startswith(p)\<close>\<close>
  "startswith s p = (take (length p) s = p)"

fun contains :: "string \<Rightarrow> string \<Rightarrow> bool" where
  \<comment> \<open>\<^verbatim>\<open>sub in s\<close> on two strings: \<open>contains s sub\<close>\<close>
  "contains [] sub = (sub = [])"
| "contains (c # s) sub = (startswith (c # s) sub \<or> contains s sub)"

fun str_split :: "char \<Rightarrow> string \<Rightarrow> string list" where
  \<comment> \<open>\<^verbatim>\<open>s.split(sep)\<close> for a one-character separator: never the empty list\<close>
  "str_split sep [] = [[]]"
| "str_split sep (c # s) =
     (if c = sep then [] # str_split sep s
      else (case str_split sep s of
              [] \<Rightarrow> [[c]]
            | w # ws \<Rightarrow> (c # w) # ws))"

fun str_join :: "string \<Rightarrow> string list \<Rightarrow> string" where
  \<comment> \<open>\<^verbatim>\<open>sep.join(parts)\<close>\<close>
  "str_join sep [] = []"
| "str_join sep [w] = w"
| "str_join sep (w # ws) = w @ sep @ str_join sep ws"

definition before :: "char \<Rightarrow> string \<Rightarrow> string" where
  \<comment> \<open>\<^verbatim>\<open>s[:s.find(c)]\<close> when \<open>c\<close> occurs in \<open>s\<close>, all of \<open>s\<close> otherwise\<close>
  "before c s = takeWhile (\<lambda>x. x \<noteq> c) s"

definition after :: "char \<Rightarrow> string \<Rightarrow> string" where
  \<comment> \<open>\<^verbatim>\<open>s[s.find(c)+1:]\<close> when \<open>c\<close> occurs in \<open>s\<close>, empty otherwise\<close>
  "after c s = drop 1 (dropWhile (\<lambda>x. x \<noteq> c) s)"

section \<open>The library call \<^verbatim>\<open>urllib.parse.urljoin\<close>\<close>

text \<open>
  Line 36 of \<^verbatim>\<open>main.py\<close> resolves every kept href with \<^verbatim>\<open>urljoin(url, link)\<close> of the
  Python standard library. The definitions below follow \<^verbatim>\<open>Lib/urllib/parse.py\<close> of
  CPython 3.12 (\<^verbatim>\<open>urlsplit\<close>, \<^verbatim>\<open>urlparse\<close>, \<^verbatim>\<open>urlunparse\<close>, \<^verbatim>\<open>urljoin\<close>) function by
  function. \<^verbatim>\<open>urlsplit\<close> raises \<^verbatim>\<open>ValueError\<close> when the network location of a URL has
  square brackets that do not enclose an IPv6 or IPvFuture address; the address is tested
  by \<^verbatim>\<open>ipaddress.ip_address\<close> of \<^verbatim>\<open>Lib/ipaddress.py\<close>, followed here as far as it
  decides whether the address is accepted. Nothing in \<^verbatim>\<open>main.py\<close> reads the message of a
  \<^verbatim>\<open>ValueError\<close>, so the error carries none. The third test of \<^verbatim>\<open>urlsplit\<close>,
  \<^verbatim>\<open>_checknetloc\<close>, rejects a network location whose NFKC normal form gains one of the
  characters \<^verbatim>\<open>/?#@:\<close>; no code point below 256 has such a normal form, so on the
  strings of this model it never raises.
\<close>

datatype error = ValueError

definition uses_relative :: "string list" where
  "uses_relative = ['''', ''ftp'', ''http'', ''gopher'', ''nntp'', ''imap'',
     ''wais'', ''file'', ''https'', ''shttp'', ''mms'',
     ''prospero'', ''rtsp'', ''rtsps'', ''rtspu'', ''sftp'',
     ''svn'', ''svn+ssh'', ''ws'', ''wss'']"

definition uses_netloc :: "string list" where
  "uses_netloc = ['''', ''ftp'', ''http'', ''gopher'', ''nntp'', ''telnet'',
     ''imap'', ''wais'', ''file'', ''mms'', ''https'', ''shttp'',
     ''snews'', ''prospero'', ''rtsp'', ''rtsps'', ''rtspu'', ''rsync'',
     ''svn'', ''svn+ssh'', ''sftp'', ''nfs'', ''git'', ''git+ssh'',
     ''ws'', ''wss'', ''itms-services'']"

definition uses_params :: "string list" where
  "uses_params = ['''', ''ftp'', ''hdl'', ''prospero'', ''http'', ''imap'',
     ''https'', ''shttp'', ''rtsp'', ''rtsps'', ''rtspu'', ''sip'',
     ''sips'', ''mms'', ''sftp'', ''tel'']"

definition scheme_chars :: "string" where
  "scheme_chars = ''abcdefghijklmnopqrstuvwxyzABCDEFGHIJKLMNOPQRSTUVWXYZ0123456789+-.''"

definition is_ascii_alpha :: "char \<Rightarrow> bool" where
  \<comment> \<open>\<^verbatim>\<open>c.isascii() and c.isalpha()\<close>\<close>
  "is_ascii_alpha c =
     (let n = (of_char c :: nat) in (65 \<le> n \<and> n \<le> 90) \<or> (97 \<le> n \<and> n \<le> 122))"

definition is_ascii_digit :: "char \<Rightarrow> bool" where
  \<comment> \<open>\<^verbatim>\<open>c.isascii() and c.isdigit()\<close>\<close>
  "is_ascii_digit c = (let n = (of_char c :: nat) in 48 \<le> n \<and> n \<le> 57)"

definition is_hex_digit :: "char \<Rightarrow> bool" where
  \<comment> \<open>membership in \<^verbatim>\<open>_HEX_DIGITS\<close>, and in the class \<^verbatim>\<open>[a-fA-F0-9]\<close>\<close>
  "is_hex_digit c = (c \<in> set ''0123456789ABCDEFabcdef'')"

definition c0_control_or_space :: "char \<Rightarrow> bool" where
  \<comment> \<open>membership in \<^verbatim>\<open>_WHATWG_C0_CONTROL_OR_SPACE\<close>: code points 0 to 32\<close>
  "c0_control_or_space c = ((of_char c :: nat) \<le> 32)"

definition unsafe_url_byte :: "char \<Rightarrow> bool" where
  \<comment> \<open>membership in \<^verbatim>\<open>_UNSAFE_URL_BYTES_TO_REMOVE\<close>: tab, carriage return, line feed\<close>
  "unsafe_url_byte c = ((of_char c :: nat) \<in> {9, 10, 13})"

subsection \<open>The address between square brackets\<close>

definition parse_octet :: "string \<Rightarrow> bool" where
  \<comment> \<open>\<^verbatim>\<open>IPv4Address._parse_octet\<close> returns: a decimal number from 0 to 255 of at most
      three digits, without a leading zero\<close>
  "parse_octet octet_str =
     (octet_str \<noteq> []
      \<and> list_all is_ascii_digit octet_str
      \<and> length octet_str \<le> 3
      \<and> (octet_str = ''0'' \<or> hd octet_str \<noteq> CHR ''0'')
      \<and> foldl (\<lambda>n c. 10 * n + (of_char c - 48)) (0 :: nat) octet_str \<le> 255)"

definition ipv4_address :: "string \<Rightarrow> bool" where
  \<comment> \<open>\<^verbatim>\<open>IPv4Address(address)\<close> returns: four octets between dots\<close>
  "ipv4_address address =
     (CHR ''/'' \<notin> set address
      \<and> address \<noteq> []
      \<and> length (str_split (CHR ''.'') address) = 4
      \<and> list_all parse_octet (str_split (CHR ''.'') address))"

definition parse_hextet :: "string \<Rightarrow> bool" where
  \<comment> \<open>\<^verbatim>\<open>IPv6Address._parse_hextet\<close> returns: one to four hexadecimal digits (the empty
      string is refused by \<^verbatim>\<open>int(hextet_str, 16)\<close>)\<close>
  "parse_hextet hextet_str =
     (list_all is_hex_digit hextet_str \<and> length hextet_str \<le> 4 \<and> hextet_str \<noteq> [])"

definition ip_int_from_string :: "string \<Rightarrow> bool" where
  \<comment> \<open>\<^verbatim>\<open>IPv6Address._ip_int_from_string\<close> returns. An IPv4 suffix is replaced by its two
      hextets, written with \<^verbatim>\<open>'%x'\<close>: one to four hexadecimal digits each, which
      \<^verbatim>\<open>_parse_hextet\<close> accepts whatever the address, so \<open>0\<close> stands for both.\<close>
  "ip_int_from_string ip_str =
     (ip_str \<noteq> []
      \<and> (let parts0 = str_split (CHR '':'') ip_str
         in 3 \<le> length parts0
            \<and> (CHR ''.'' \<in> set (last parts0) \<longrightarrow> ipv4_address (last parts0))
            \<and> (let parts = (if CHR ''.'' \<in> set (last parts0)
                              then butlast parts0 @ [''0'', ''0''] else parts0);
                    skips = filter (\<lambda>i. parts ! i = []) [1 ..< length parts - 1]
                in length parts \<le> 9
                   \<and> length skips \<le> 1
                   \<and> (if skips \<noteq> [] then
                        (let skip_index = hd skips;
                             parts_hi = (if hd parts = [] then skip_index - 1 else skip_index);
                             parts_lo = (if last parts = [] then length parts - skip_index - 2
                                         else length parts - skip_index - 1)
                         in (hd parts = [] \<longrightarrow> parts_hi = 0)
                            \<and> (last parts = [] \<longrightarrow> parts_lo = 0)
                            \<and> parts_hi + parts_lo < 8
                            \<and> list_all parse_hextet (take parts_hi parts)
                            \<and> list_all parse_hextet (drop (length parts - parts_lo) parts))
                      else length parts = 8 \<and> hd parts \<noteq> [] \<and> last parts \<noteq> []
                           \<and> list_all parse_hextet parts))))"

definition ipv6_address :: "string \<Rightarrow> bool" where
  \<comment> \<open>\<^verbatim>\<open>IPv6Address(address)\<close> returns: the part before a \<^verbatim>\<open>%\<close> is an address, the scope
      id after it is not empty and has no \<^verbatim>\<open>%\<close>\<close>
  "ipv6_address address =
     (CHR ''/'' \<notin> set address
      \<and> (CHR ''%'' \<in> set address \<longrightarrow>
            after (CHR ''%'') address \<noteq> [] \<and> CHR ''%'' \<notin> set (after (CHR ''%'') address))
      \<and> ip_int_from_string (before (CHR ''%'') address))"

definition ipvfuture :: "string \<Rightarrow> bool" where
  \<comment> \<open>\<^verbatim>\<open>re.match(r"\Av[a-fA-F0-9]+\..+\Z", hostname)\<close> for a hostname that starts with
      \<^verbatim>\<open>v\<close>: hexadecimal digits, a dot, and at least one more character, none a line feed\<close>
  "ipvfuture hostname =
     (let digits = takeWhile is_hex_digit (drop 1 hostname);
          rest = dropWhile is_hex_digit (drop 1 hostname)
      in digits \<noteq> [] \<and> take 1 rest = ''.'' \<and> drop 1 rest \<noteq> []
         \<and> (\<forall>c \<in> set (drop 1 rest). (of_char c :: nat) \<noteq> 10))"

definition check_bracketed_host :: "string \<Rightarrow> bool" where
  \<comment> \<open>\<^verbatim>\<open>_check_bracketed_host(hostname)\<close> returns: \<^verbatim>\<open>ip_address\<close> tries IPv4 first, and an
      IPv4 address is refused between brackets\<close>
  "check_bracketed_host hostname =
     (if startswith hostname ''v'' then ipvfuture hostname
      else if ipv4_address hostname then False
      else ipv6_address hostname)"

definition check_bracketed_netloc :: "string \<Rightarrow> bool" where
  \<comment> \<open>\<^verbatim>\<open>_check_bracketed_netloc(netloc)\<close> returns\<close>
  "check_bracketed_netloc netloc =
     (let hostname_and_port = rev (takeWhile (\<lambda>c. c \<noteq> CHR ''@'') (rev netloc))
      in if CHR ''['' \<in> set hostname_and_port then
           (let bracketed = after (CHR ''['') hostname_and_port;
                port = after (CHR '']'') bracketed
            in before (CHR ''['') hostname_and_port = []
               \<and> (port \<noteq> [] \<longrightarrow> startswith port '':'')
               \<and> check_bracketed_host (before (CHR '']'') bracketed))
         else check_bracketed_host (before (CHR '':'') hostname_and_port))"

definition check_netloc :: "string \<Rightarrow> bool" where
  \<comment> \<open>the two tests of \<^verbatim>\<open>urlsplit\<close> on a network location pass: brackets come in pairs,
      and what they enclose is an address\<close>
  "check_netloc netloc =
     (if (CHR ''['' \<in> set netloc \<and> CHR '']'' \<notin> set netloc)
         \<or> (CHR '']'' \<in> set netloc \<and> CHR ''['' \<notin> set netloc) then False
      else if CHR ''['' \<in> set netloc \<and> CHR '']'' \<in> set netloc then check_bracketed_netloc netloc
      else True)"

subsection \<open>Splitting and joining\<close>

definition splitnetloc :: "string \<Rightarrow> string \<times> string" where
  \<comment> \<open>\<^verbatim>\<open>_splitnetloc(url, 2)\<close> applied to what follows the two slashes\<close>
  "splitnetloc rest =
     (let is_delim = (\<lambda>c. c \<in> set ''/?#'')
      in (takeWhile (\<lambda>c. \<not> is_delim c) rest, dropWhile (\<lambda>c. \<not> is_delim c) rest))"

definition urlsplit ::
  "string \<Rightarrow> string \<Rightarrow> error + string \<times> string \<times> string \<times> string \<times> string" where
  \<comment> \<open>\<^verbatim>\<open>urlsplit(url, scheme)\<close>: (scheme, netloc, path, query, fragment), or the
      \<^verbatim>\<open>ValueError\<close> of a network location that fails its tests\<close>
  "urlsplit url0 scheme0 =
     (let url1 = filter (\<lambda>c. \<not> unsafe_url_byte c) (dropWhile c0_control_or_space url0);
          scheme1 = filter (\<lambda>c. \<not> unsafe_url_byte c)
                      (rev (dropWhile c0_control_or_space
                         (rev (dropWhile c0_control_or_space scheme0))));
          head = before (CHR '':'') url1;
          (scheme, url2) =
            (if CHR '':'' \<in> set url1 \<and> head \<noteq> [] \<and> is_ascii_alpha (hd url1)
                \<and> (\<forall>c \<in> set head. c \<in> set scheme_chars)
             then (lower head, after (CHR '':'') url1)
             else (scheme1, url1));
          (netloc, url3) =
            (if take 2 url2 = ''//'' then splitnetloc (drop 2 url2) else ('''', url2))
      in if take 2 url2 = ''//'' \<and> \<not> check_netloc netloc then Inl ValueError
         else
           (let (url4, fragment) =
                  (if CHR ''#'' \<in> set url3 then (before (CHR ''#'') url3, after (CHR ''#'') url3)
                   else (url3, ''''));
                (url5, query) =
                  (if CHR ''?'' \<in> set url4 then (before (CHR ''?'') url4, after (CHR ''?'') url4)
                   else (url4, ''''))
            in Inr (scheme, netloc, url5, query, fragment)))"

definition splitparams :: "string \<Rightarrow> string \<times> string" where
  \<comment> \<open>\<^verbatim>\<open>_splitparams(url)\<close>, called only when \<open>;\<close> occurs in \<open>url\<close>: the first
      \<open>;\<close> of the last path segment splits, if there is one\<close>
  "splitparams url =
     (if CHR ''/'' \<in> set url then
        (let seg = rev (takeWhile (\<lambda>c. c \<noteq> CHR ''/'') (rev url));
             dir = take (length url - length seg) url
         in if CHR '';'' \<in> set seg
            then (dir @ before (CHR '';'') seg, after (CHR '';'') seg)
            else (url, ''''))
      else (before (CHR '';'') url, after (CHR '';'') url))"

definition urlparse ::
  "string \<Rightarrow> string \<Rightarrow> error + string \<times> string \<times> string \<times> string \<times> string \<times> string" where
  \<comment> \<open>\<^verbatim>\<open>urlparse(url, scheme)\<close>: (scheme, netloc, path, params, query, fragment), or the
      \<^verbatim>\<open>ValueError\<close> of \<^verbatim>\<open>urlsplit\<close>\<close>
  "urlparse url0 scheme0 =
     (case urlsplit url0 scheme0 of
        Inl e \<Rightarrow> Inl e
      | Inr (scheme, netloc, url, query, fragment) \<Rightarrow>
          (let (path, params) =
                 (if scheme \<in> set uses_params \<and> CHR '';'' \<in> set url then splitparams url
                  else (url, ''''))
           in Inr (scheme, netloc, path, params, query, fragment)))"

definition urlunsplit :: "string \<times> string \<times> string \<times> string \<times> string \<Rightarrow> string" where
  "urlunsplit parts =
     (let (scheme, netloc, url0, query, fragment) = parts;
          url1 =
            (if netloc \<noteq> [] \<or> (scheme \<noteq> [] \<and> scheme \<in> set uses_netloc \<and> take 2 url0 \<noteq> ''//'')
             then ''//'' @ netloc @ (if url0 \<noteq> [] \<and> take 1 url0 \<noteq> ''/'' then ''/'' @ url0 else url0)
             else url0);
          url2 = (if scheme \<noteq> [] then scheme @ '':'' @ url1 else url1);
          url3 = (if query \<noteq> [] then url2 @ ''?'' @ query else url2)
      in if fragment \<noteq> [] then url3 @ ''#'' @ fragment else url3)"

definition urlunparse ::
  "string \<times> string \<times> string \<times> string \<times> string \<times> string \<Rightarrow> string" where
  "urlunparse parts =
     (let (scheme, netloc, url, params, query, fragment) = parts
      in urlunsplit (scheme, netloc,
           (if params \<noteq> [] then url @ '';'' @ params else url), query, fragment))"

fun resolve_segments :: "string list \<Rightarrow> string list \<Rightarrow> string list" where
  \<comment> \<open>the loop over \<^verbatim>\<open>segments\<close> of \<^verbatim>\<open>urljoin\<close>; the first argument is
      \<^verbatim>\<open>resolved_path\<close> so far\<close>
  "resolve_segments resolved [] = resolved"
| "resolve_segments resolved (seg # segs) =
     (if seg = ''..'' then resolve_segments (butlast resolved) segs
      else if seg = ''.'' then resolve_segments resolved segs
      else resolve_segments (resolved @ [seg]) segs)"

definition squeeze_middle :: "string list \<Rightarrow> string list" where
  \<comment> \<open>\<^verbatim>\<open>segments[1:-1] = filter(None, segments[1:-1])\<close>\<close>
  "squeeze_middle segments =
     (if length segments < 2 then segments
      else hd segments # filter (\<lambda>s. s \<noteq> []) (butlast (tl segments)) @ [last segments])"

definition urljoin :: "string \<Rightarrow> string \<Rightarrow> error + string" where
  \<comment> \<open>\<^verbatim>\<open>urljoin(base, url)\<close>: the joined URL, or the \<^verbatim>\<open>ValueError\<close> of parsing \<open>base\<close> or
      \<open>url\<close>\<close>
  "urljoin base url =
     (if base = [] then Inr url
      else if url = [] then Inr base
      else
        (case urlparse base '''' of
           Inl e \<Rightarrow> Inl e
         | Inr (bscheme, bnetloc, bpath, bparams, bquery, bfragment) \<Rightarrow>
        (case urlparse url bscheme of
           Inl e \<Rightarrow> Inl e
         | Inr (scheme, netloc, path, params, query, fragment) \<Rightarrow>
             Inr (if scheme \<noteq> bscheme \<or> scheme \<notin> set uses_relative then url
                  else if scheme \<in> set uses_netloc \<and> netloc \<noteq> []
                    then urlunparse (scheme, netloc, path, params, query, fragment)
                  else
                    (let netloc1 = (if scheme \<in> set uses_netloc then bnetloc else netloc)
                     in if path = [] \<and> params = []
                        then urlunparse (scheme, netloc1, bpath, bparams,
                               (if query = [] then bquery else query), fragment)
                        else
                          (let base_parts0 = str_split (CHR ''/'') bpath;
                               base_parts =
                                 (if last base_parts0 \<noteq> [] then butlast base_parts0
                                  else base_parts0);
                               segments =
                                 (if take 1 path = ''/'' then str_split (CHR ''/'') path
                                  else squeeze_middle (base_parts @ str_split (CHR ''/'') path));
                               resolved0 = resolve_segments [] segments;
                               resolved_path =
                                 (if last segments \<in> {''.'', ''..''} then resolved0 @ ['''']
                                  else resolved0);
                               joined = str_join ''/'' resolved_path
                           in urlunparse (scheme, netloc1,
                                (if joined = [] then ''/'' else joined), params, query, fragment)))))))"

section \<open>One page: match test and link extraction\<close>

text \<open>
  A fetched page enters the model after \<^verbatim>\<open>BeautifulSoup\<close> has parsed it: \<open>page_text\<close> is
  the value of \<^verbatim>\<open>soup.get_text(separator=" ", strip=True)\<close> (line 32), \<open>page_hrefs\<close> the
  values \<^verbatim>\<open>link['href']\<close> of \<^verbatim>\<open>soup.find_all('a', href=True)\<close> in document order
  (line 35).
\<close>

record page =
  page_text :: string
  page_hrefs :: "string list"

definition page_matches :: "string \<Rightarrow> string \<Rightarrow> string \<Rightarrow> (string \<times> string) list" where
  \<comment> \<open>line 33: \<^verbatim>\<open>[(query.lower(), url)] if query.lower() in all_text.lower() else []\<close>\<close>
  "page_matches query url all_text =
     (if contains (lower all_text) (lower query) then [(lower query, url)] else [])"

definition is_candidate :: "string \<Rightarrow> string \<Rightarrow> bool" where
  \<comment> \<open>the condition of the comprehension of line 35\<close>
  "is_candidate url href = (startswith href ''/'' \<or> startswith href url)"

fun join_links :: "string \<Rightarrow> string list \<Rightarrow> error + string list" where
  \<comment> \<open>the comprehension of line 36: it has a value when \<^verbatim>\<open>urljoin\<close> returns for every
      link, and raises with the first link that \<^verbatim>\<open>urljoin\<close> refuses\<close>
  "join_links url [] = Inr []"
| "join_links url (link # links) =
     (case urljoin url link of
        Inl e \<Rightarrow> Inl e
      | Inr joined \<Rightarrow>
          (case join_links url links of
             Inl e \<Rightarrow> Inl e
           | Inr rest \<Rightarrow> Inr (joined # rest)))"

definition extract_links :: "string \<Rightarrow> string list \<Rightarrow> error + string list" where
  \<comment> \<open>lines 35 and 36\<close>
  "extract_links url hs = join_links url (filter (is_candidate url) hs)"

section \<open>Fetching a page\<close>

text \<open>
  \<^verbatim>\<open>requests.get(url)\<close> (line 27) either raises a \<^verbatim>\<open>RequestException\<close> (no connection, a
  timeout, a URL it cannot use), or returns the final answer of the server, whatever its
  status code. The web is finite: an association list from URLs to what \<^verbatim>\<open>requests.get\<close>
  does with them; a URL it does not list cannot be reached. Of an answer the model keeps
  what \<^verbatim>\<open>main.py\<close> and \<^verbatim>\<open>raise_for_status\<close> read: \<^verbatim>\<open>status_code\<close>, \<^verbatim>\<open>reason\<close>, \<^verbatim>\<open>url\<close>
  (the URL of the answer, after redirections), and the parsed \<^verbatim>\<open>text\<close>.
\<close>

record response =
  status_code :: nat
  reason :: string
  response_url :: string
  soup :: page

datatype reply = Raises string | Answer response

type_synonym web = "(string \<times> reply) list"

definition requests_get :: "web \<Rightarrow> string \<Rightarrow> reply" where
  \<comment> \<open>line 27\<close>
  "requests_get web url =
     (case map_of web url of Some r \<Rightarrow> r | None \<Rightarrow> Raises ''connection failed'')"

function decimal :: "nat \<Rightarrow> string" where
  \<comment> \<open>\<^verbatim>\<open>str(n)\<close> of a natural number\<close>
  "decimal n = (if n < 10 then [char_of (48 + n)] else decimal (n div 10) @ [char_of (48 + n mod 10)])"
  by pat_completeness auto

termination
  by (relation "measure id") auto

definition http_error_msg :: "response \<Rightarrow> string" where
  \<comment> \<open>the message that \<^verbatim>\<open>Response.raise_for_status\<close> of the \<^verbatim>\<open>requests\<close> library builds:
      empty unless the status code is from 400 to 599\<close>
  "http_error_msg r =
     (if 400 \<le> status_code r \<and> status_code r < 500
      then decimal (status_code r) @ '' Client Error: '' @ reason r @ '' for url: '' @ response_url r
      else if 500 \<le> status_code r \<and> status_code r < 600
      then decimal (status_code r) @ '' Server Error: '' @ reason r @ '' for url: '' @ response_url r
      else [])"

datatype fetch_result = RequestException string | Response page

definition fetch :: "web \<Rightarrow> string \<Rightarrow> fetch_result" where
  \<comment> \<open>lines 27 and 28: \<^verbatim>\<open>raise_for_status\<close> raises an \<^verbatim>\<open>HTTPError\<close>, which is a
      \<^verbatim>\<open>RequestException\<close>, when the message is not empty\<close>
  "fetch web url =
     (case requests_get web url of
        Raises e \<Rightarrow> RequestException e
      | Answer r \<Rightarrow>
          (if http_error_msg r \<noteq> [] then RequestException (http_error_msg r)
           else Response (soup r)))"

section \<open>The crawl, one call after the other\<close>

text \<open>
  The state the calls share: the set \<^verbatim>\<open>visited_urls\<close> created by \<^verbatim>\<open>main\<close> (line 72), and
  the two traces the calls leave outside the program: the URLs handed to
  \<^verbatim>\<open>requests.get\<close>, in order, and the lines written by \<^verbatim>\<open>print\<close>.
\<close>

record state =
  visited_urls :: "string set"
  requested :: "string list"
  printed :: "string list"

definition initial :: state where
  \<comment> \<open>\<^verbatim>\<open>set()\<close> of line 72, before anything was fetched or printed\<close>
  "initial = \<lparr>visited_urls = {}, requested = [], printed = []\<rparr>"

definition error_line :: "string \<Rightarrow> string \<Rightarrow> string" where
  \<comment> \<open>line 47: \<^verbatim>\<open>f"Error crawling {url}: {e}"\<close>\<close>
  "error_line url e = ''Error crawling '' @ url @ '': '' @ e"

text \<open>
  A call of \<^verbatim>\<open>crawl_page\<close> returns its list of matches or raises: the handler of line 46
  catches a \<^verbatim>\<open>RequestException\<close> and nothing else, so the \<^verbatim>\<open>ValueError\<close> of line 36 leaves
  the call. The list is built by \<^verbatim>\<open>matches.extend(future.result())\<close> (line 42) in the order
  in which \<^verbatim>\<open>as_completed\<close> hands over the futures. That order is not fixed by the program
  (futures that are finished already come out of a \<^verbatim>\<open>set\<close>), so the model keeps of the list
  what does not depend on it: the multiset of its entries.
\<close>

type_synonym outcome = "error + (string \<times> string) multiset"

fun gather :: "(string \<times> string) multiset \<Rightarrow> outcome list \<Rightarrow> outcome" where
  \<comment> \<open>the loop of lines 41 and 42 over the outcomes of the submitted calls:
      \<^verbatim>\<open>future.result()\<close> gives the matches of a call that returned and raises again the
      exception of a call that raised\<close>
  "gather matches [] = Inr matches"
| "gather matches (Inl e # results) = Inl e"
| "gather matches (Inr found # results) = gather (matches + found) results"

text \<open>
  What the termination proof measures: the URLs of the web that are not yet visited, and,
  among calls on the same state, the links still to be crawled.
\<close>

definition unvisited :: "web \<Rightarrow> state \<Rightarrow> nat" where
  "unvisited web s = card (fst ` set web - visited_urls s)"

definition crawl_order ::
  "((web \<times> string \<times> string \<times> state) + (web \<times> string \<times> string list \<times> state)) rel" where
  "crawl_order =
     (\<lambda>x. case x of Inl (web, q, url, s) \<Rightarrow> unvisited web s
                    | Inr (web, q, links, s) \<Rightarrow> unvisited web s)
     <*mlex*> measure (\<lambda>x. case x of Inl _ \<Rightarrow> 0 | Inr (web, q, links, s) \<Rightarrow> Suc (length links))"

text \<open>
  \<open>crawl_page\<close> is the function of line 9 when the calls submitted in line 40 run one
  after the other, each to its end, in the order of submission: a run of a pool with a
  single worker (\<^verbatim>\<open>--threads 1\<close>). \<open>crawl_links\<close> runs the submitted calls and gives their
  outcomes. A call that raises does not stop the others: leaving the \<^verbatim>\<open>with\<close> block of
  line 39 waits for every submitted call, whether the block is left by line 44 or by an
  exception. The function is total: its termination is proved on the number of URLs of the
  web that are not yet in \<^verbatim>\<open>visited_urls\<close>.
\<close>

function crawl_page :: "web \<Rightarrow> string \<Rightarrow> string \<Rightarrow> state \<Rightarrow> outcome \<times> state"
  and crawl_links :: "web \<Rightarrow> string \<Rightarrow> string list \<Rightarrow> state \<Rightarrow> outcome list \<times> state"
where
  "crawl_page web query url s =
     (if url \<in> visited_urls s then (Inr {#}, s)
      else
        (let s1 = s\<lparr>visited_urls := insert url (visited_urls s)\<rparr>;
             s2 = s1\<lparr>requested := requested s1 @ [url]\<rparr>
         in case fetch web url of
              RequestException e \<Rightarrow> (Inr {#}, s2\<lparr>printed := printed s2 @ [error_line url e]\<rparr>)
            | Response p \<Rightarrow>
                (case extract_links url (page_hrefs p) of
                   Inl e \<Rightarrow> (Inl e, s2)
                 | Inr links \<Rightarrow>
                     (let (results, s3) = crawl_links web query links s2
                      in (gather (mset (page_matches query url (page_text p))) results, s3)))))"
| "crawl_links web query [] s = ([], s)"
| "crawl_links web query (link # links) s =
     (let (r, s1) = crawl_page web query link s;
          (rs, s2) = crawl_links web query links s1
      in (r # rs, s2))"
  by pat_completeness auto

termination
proof -
  have in_web: "url \<in> fst ` set web" if "fetch web url = Response p" for web url p
    using that
    by (auto simp: fetch_def requests_get_def
          split: option.splits reply.splits if_splits dest: map_of_SomeD intro: rev_image_eqI)
  have grows:
    "crawl_page_crawl_links_dom (Inl (web, query, url, s)) \<Longrightarrow>
       visited_urls s \<subseteq> visited_urls (snd (crawl_page web query url s))"
    "crawl_page_crawl_links_dom (Inr (web, query, links, s)) \<Longrightarrow>
       visited_urls s \<subseteq> visited_urls (snd (crawl_links web query links s))"
    for web query url links s
  proof (induction web query url s and web query links s rule: crawl_page_crawl_links.pinduct)
    case (1 web query url s)
    show ?case
    proof (cases "url \<in> visited_urls s")
      case True
      then show ?thesis using "1.hyps" by (simp add: crawl_page.psimps)
    next
      case False
      show ?thesis
      proof (cases "fetch web url")
        case (RequestException e)
        with False "1.hyps" show ?thesis
          by (auto simp: crawl_page.psimps Let_def)
      next
        case (Response p)
        show ?thesis
        proof (cases "extract_links url (page_hrefs p)")
          case (Inl e)
          with False Response "1.hyps" show ?thesis
            by (auto simp: crawl_page.psimps Let_def)
        next
          case (Inr links)
          from "1.IH"[OF False refl refl Response Inr]
          have "insert url (visited_urls s) \<subseteq>
                  visited_urls (snd (crawl_links web query links
                    (s\<lparr>visited_urls := insert url (visited_urls s),
                       requested := requested s @ [url]\<rparr>)))"
            by simp
          with False Response Inr "1.hyps" show ?thesis
            by (auto simp: crawl_page.psimps Let_def split: prod.splits)
        qed
      qed
    qed
  next
    case (2 web query s)
    then show ?case by (simp add: crawl_links.psimps)
  next
    case (3 web query link links s)
    obtain r s1 where p: "crawl_page web query link s = (r, s1)"
      by (cases "crawl_page web query link s")
    from "3.IH"(1) p have a: "visited_urls s \<subseteq> visited_urls s1" by simp
    from "3.IH"(2)[OF p[symmetric] refl]
    have b: "visited_urls s1 \<subseteq> visited_urls (snd (crawl_links web query links s1))" .
    from a b p "3.hyps" show ?case
      by (auto simp: crawl_links.psimps Let_def split: prod.splits)
  qed
  show ?thesis
  proof (relation crawl_order)
    show "wf crawl_order"
      by (simp add: crawl_order_def wf_mlex)
  next
    fix web :: web and query url :: string and s s1 s2 :: state and p :: page
      and links :: "string list"
    assume "url \<notin> visited_urls s" and "fetch web url = Response p"
      and "s1 = s\<lparr>visited_urls := insert url (visited_urls s)\<rparr>"
      and "s2 = s1\<lparr>requested := requested s1 @ [url]\<rparr>"
    then have "unvisited web s2 < unvisited web s"
      unfolding unvisited_def
      by (auto intro!: psubset_card_mono dest: in_web)
    then show "(Inr (web, query, links, s2), Inl (web, query, url, s)) \<in> crawl_order"
      by (simp add: crawl_order_def mlex_less)
  next
    fix web :: web and query link :: string and links :: "string list" and s :: state
    show "(Inl (web, query, link, s), Inr (web, query, link # links, s)) \<in> crawl_order"
      by (simp add: crawl_order_def mlex_leq)
  next
    fix web :: web and query link :: string and links :: "string list" and s s1 :: state
      and x and r :: outcome
    assume "x = crawl_page web query link s" "(r, s1) = x"
      and "crawl_page_crawl_links_dom (Inl (web, query, link, s))"
    then have "visited_urls s \<subseteq> visited_urls s1"
      using grows(1)[of web query link s] by (metis snd_conv)
    then have "unvisited web s1 \<le> unvisited web s"
      unfolding unvisited_def by (auto intro!: card_mono)
    then show "(Inr (web, query, links, s1), Inr (web, query, link # links, s)) \<in> crawl_order"
      by (simp add: crawl_order_def mlex_leq)
  qed
qed

declare crawl_page.simps [simp del]

section \<open>What a run leaves behind: vocabulary of the theorems\<close>

subsection \<open>The scheme of a URL\<close>

definition cleaned :: "string \<Rightarrow> string" where
  \<comment> \<open>what \<^verbatim>\<open>urlsplit\<close> parses: the URL without leading blanks and without tab, CR, LF\<close>
  "cleaned u = filter (\<lambda>c. \<not> unsafe_url_byte c) (dropWhile c0_control_or_space u)"

definition has_scheme :: "string \<Rightarrow> bool" where
  \<comment> \<open>the test of \<^verbatim>\<open>urlsplit\<close> for a scheme before the first colon\<close>
  "has_scheme x =
     (CHR '':'' \<in> set x \<and> before (CHR '':'') x \<noteq> [] \<and> is_ascii_alpha (hd x)
      \<and> (\<forall>c \<in> set (before (CHR '':'') x). c \<in> set scheme_chars))"

definition claim :: "string \<Rightarrow> state \<Rightarrow> bool \<times> state" where
  \<comment> \<open>lines 23 to 25, run without interruption: the test of \<^verbatim>\<open>visited_urls\<close>, then the
      insertion; the first component tells whether the caller goes on to fetch\<close>
  "claim url s =
     (if url \<in> visited_urls s then (False, s)
      else (True, s\<lparr>visited_urls := insert url (visited_urls s)\<rparr>))"

fun claims :: "string list \<Rightarrow> state \<Rightarrow> bool list \<times> state" where
  \<comment> \<open>one claim after the other, on the shared set\<close>
  "claims [] s = ([], s)"
| "claims (url # urls) s =
     (let (won, s1) = claim url s; (more, s2) = claims urls s1 in (won # more, s2))"


definition succeeds :: "web \<Rightarrow> string \<Rightarrow> bool" where
  "succeeds web url = (case fetch web url of RequestException e \<Rightarrow> False | Response p \<Rightarrow> True)"

definition page_result :: "web \<Rightarrow> string \<Rightarrow> string \<Rightarrow> outcome" where
  \<comment> \<open>what one fetch of \<open>url\<close> contributes to the outcome of a crawl: the match of the
      page, if it has one, or the \<^verbatim>\<open>ValueError\<close> of its links\<close>
  "page_result web query url =
     (case fetch web url of
        RequestException e \<Rightarrow> Inr {#}
      | Response p \<Rightarrow>
          (case extract_links url (page_hrefs p) of
             Inl e \<Rightarrow> Inl e
           | Inr links \<Rightarrow> Inr (mset (page_matches query url (page_text p)))))"

definition both :: "outcome \<Rightarrow> outcome \<Rightarrow> outcome" where
  \<comment> \<open>two outcomes gathered: the matches of both, unless one is an exception\<close>
  "both a b =
     (case a of
        Inl e \<Rightarrow> Inl e
      | Inr x \<Rightarrow> (case b of Inl e \<Rightarrow> Inl e | Inr y \<Rightarrow> Inr (x + y)))"

definition together :: "outcome list \<Rightarrow> outcome" where
  \<comment> \<open>a list of outcomes gathered\<close>
  "together results = gather {#} results"

definition error_lines :: "web \<Rightarrow> string \<Rightarrow> string list" where
  \<comment> \<open>the lines one fetch of \<open>url\<close> prints\<close>
  "error_lines web url =
     (case fetch web url of
        RequestException e \<Rightarrow> [error_line url e]
      | Response p \<Rightarrow> [])"

definition links_of :: "web \<Rightarrow> string \<Rightarrow> string list" where
  \<comment> \<open>the link graph: the links of line 36 for a page that is fetched and whose links
      can all be joined, none otherwise\<close>
  "links_of web url =
     (case fetch web url of
        RequestException e \<Rightarrow> []
      | Response p \<Rightarrow>
          (case extract_links url (page_hrefs p) of Inl e \<Rightarrow> [] | Inr links \<Rightarrow> links))"

inductive reaches :: "web \<Rightarrow> string \<Rightarrow> string \<Rightarrow> bool" for web u where
  reaches_self: "reaches web u u"
| reaches_link: "reaches web u v \<Longrightarrow> w \<in> set (links_of web v) \<Longrightarrow> reaches web u w"

definition crawl_effect ::
  "web \<Rightarrow> string \<Rightarrow> state \<Rightarrow> string list \<Rightarrow> outcome \<times> state \<Rightarrow> bool" where
  \<comment> \<open>\<open>r\<close> is the outcome of a crawl that started in state \<open>s\<close> and fetched the URLs
      \<open>new\<close>, in this order\<close>
  "crawl_effect web query s new r =
     (requested (snd r) = requested s @ new
      \<and> visited_urls (snd r) = visited_urls s \<union> set new
      \<and> distinct new
      \<and> set new \<inter> visited_urls s = {}
      \<and> fst r = together (map (page_result web query) new)
      \<and> printed (snd r) = printed s @ concat (map (error_lines web) new)
      \<and> (\<forall>u \<in> set new. set (links_of web u) \<subseteq> visited_urls s \<union> set new))"

section \<open>The crawl with worker threads\<close>

text \<open>
  Line 39 opens a \<^verbatim>\<open>ThreadPoolExecutor(max_workers=max_threads)\<close> inside every call that
  fetched its page, line 40 submits one call of \<^verbatim>\<open>crawl_page\<close> per link to it, and lines
  41 to 44 wait for all of them and return. A run is therefore a tree of calls. A call is
  in one of these places:
  \<^item> \<open>Queued url\<close>: submitted in line 40, not yet taken by a worker of the pool;
  \<^item> \<open>Check url\<close>: about to test \<^verbatim>\<open>url in visited_urls\<close> (line 23);
  \<^item> \<open>Add url\<close>: the test was false, about to run \<^verbatim>\<open>visited_urls.add(url)\<close> (line 25);
  \<^item> \<open>Get url\<close>: about to call \<^verbatim>\<open>requests.get(url)\<close> (line 27);
  \<^item> \<open>Wait url\<close>: inside \<^verbatim>\<open>requests.get\<close>, the request sent and the answer awaited;
  \<^item> \<open>Pool matches futures\<close>: in the \<^verbatim>\<open>with\<close> block of lines 39 to 42, holding its own
    matches and the calls it submitted;
  \<^item> \<open>Done outcome\<close>: over, with the matches it returned or the exception it raised
    (\<^verbatim>\<open>Future.done()\<close> is true in both cases).

  Python gives no atomicity across statements, so the threads interleave between any two
  of these places. The pool starts its calls in the order of submission and runs at most
  \<open>max_threads\<close> of them at a time. A call leaves its \<^verbatim>\<open>with\<close> block when all the calls it
  submitted are over: with their matches gathered (line 44), or with the exception that
  one of them raised, which \<^verbatim>\<open>future.result()\<close> raises again in line 42. The runs modelled
  are those with a positive \<open>max_threads\<close>: the executor refuses any other value.
\<close>

datatype task =
    Queued string
  | Check string
  | Add string
  | Get string
  | Wait string
  | Pool "(string \<times> string) multiset" "task list"
  | Done outcome

fun is_queued :: "task \<Rightarrow> bool" where
  "is_queued (Queued url) = True"
| "is_queued t = False"

fun is_done :: "task \<Rightarrow> bool" where
  \<comment> \<open>\<^verbatim>\<open>future.done()\<close>\<close>
  "is_done (Done outcome) = True"
| "is_done t = False"

definition running :: "task \<Rightarrow> bool" where
  \<comment> \<open>a worker of the pool is busy with the call\<close>
  "running t = (\<not> is_queued t \<and> \<not> is_done t)"

fun result :: "task \<Rightarrow> outcome" where
  \<comment> \<open>\<^verbatim>\<open>future.result()\<close> of a call that is over\<close>
  "result (Done outcome) = outcome"
| "result t = Inr {#}"

fun start :: "task \<Rightarrow> task" where
  "start (Queued url) = Check url"
| "start t = t"

definition may_start :: "nat \<Rightarrow> task list \<Rightarrow> nat \<Rightarrow> bool" where
  \<comment> \<open>a worker of the pool may take the call number \<open>i\<close>: it is the first one waiting and
      fewer than \<open>max_threads\<close> workers are busy\<close>
  "may_start max_threads futures i =
     (i < length futures \<and> is_queued (futures ! i)
      \<and> list_all (\<lambda>t. \<not> is_queued t) (take i futures)
      \<and> length (filter running futures) < max_threads)"

fun act :: "web \<Rightarrow> string \<Rightarrow> state \<Rightarrow> task \<Rightarrow> (state \<times> task) option" where
  \<comment> \<open>the next move of one call, if it has one of its own\<close>
  "act web query s (Queued url) = None"
| "act web query s (Check url) =
     Some (s, if url \<in> visited_urls s then Done (Inr {#}) else Add url)"
| "act web query s (Add url) =
     Some (s\<lparr>visited_urls := insert url (visited_urls s)\<rparr>, Get url)"
| "act web query s (Get url) =
     Some (s\<lparr>requested := requested s @ [url]\<rparr>, Wait url)"
| "act web query s (Wait url) =
     (case fetch web url of
        RequestException e \<Rightarrow>
          Some (s\<lparr>printed := printed s @ [error_line url e]\<rparr>, Done (Inr {#}))
      | Response p \<Rightarrow>
          (case extract_links url (page_hrefs p) of
             Inl e \<Rightarrow> Some (s, Done (Inl e))
           | Inr links \<Rightarrow>
               Some (s, Pool (mset (page_matches query url (page_text p))) (map Queued links))))"
| "act web query s (Pool matches futures) =
     (if list_all is_done futures
      then Some (s, Done (gather matches (map result futures))) else None)"
| "act web query s (Done outcome) = None"

fun step :: "web \<Rightarrow> string \<Rightarrow> nat \<Rightarrow> nat list \<Rightarrow> state \<Rightarrow> task \<Rightarrow> (state \<times> task) option" where
  \<comment> \<open>one move of the call found along \<open>path\<close> (the numbers of the futures to descend
      into); \<open>None\<close> when that call cannot move now\<close>
  "step web query max_threads [] s t = act web query s t"
| "step web query max_threads (i # path) s (Pool matches futures) =
     (if i < length futures then
        (if path = [] \<and> is_queued (futures ! i) then
           (if may_start max_threads futures i
            then Some (s, Pool matches (futures[i := start (futures ! i)]))
            else None)
         else
           (case step web query max_threads path s (futures ! i) of
              None \<Rightarrow> None
            | Some (s', t') \<Rightarrow> Some (s', Pool matches (futures[i := t']))))
      else None)"
| "step web query max_threads (i # path) s t = None"

fun run :: "web \<Rightarrow> string \<Rightarrow> nat \<Rightarrow> nat list list \<Rightarrow> state \<times> task \<Rightarrow> (state \<times> task) option" where
  \<comment> \<open>the moves of a schedule, one after the other; \<open>None\<close> when the schedule asks for a
      move that is not possible\<close>
  "run web query max_threads [] c = Some c"
| "run web query max_threads (path # sched) c =
     (case step web query max_threads path (fst c) (snd c) of
        None \<Rightarrow> None
      | Some c' \<Rightarrow> run web query max_threads sched c')"

fun in_flight :: "task \<Rightarrow> nat" where
  \<comment> \<open>the fetches in flight: the calls inside \<^verbatim>\<open>requests.get\<close>\<close>
  "in_flight (Wait url) = 1"
| "in_flight (Pool matches futures) = sum_list (map in_flight futures)"
| "in_flight t = 0"

fun pools :: "task \<Rightarrow> nat" where
  \<comment> \<open>the executors open at the moment\<close>
  "pools (Pool matches futures) = Suc (sum_list (map pools futures))"
| "pools t = 0"

fun pools_bounded :: "nat \<Rightarrow> task \<Rightarrow> bool" where
  \<comment> \<open>no executor has more than \<open>n\<close> busy workers\<close>
  "pools_bounded n (Pool matches futures) =
     (length (filter running futures) \<le> n \<and> list_all (pools_bounded n) futures)"
| "pools_bounded n t = True"

section \<open>Vocabulary of the theorems about threads\<close>

subsection \<open>How many moves a run can still make\<close>

definition fanout :: "web \<Rightarrow> nat" where
  \<comment> \<open>the largest number of links on a page of the web\<close>
  "fanout web = foldr (\<lambda>u m. max (length (links_of web u)) m) (map fst web) 0"

fun pot :: "nat \<Rightarrow> nat \<Rightarrow> nat" where
  \<comment> \<open>moves that one submitted call and all the calls below it can make when every page
      has at most \<open>L\<close> links and \<open>k\<close> URLs of the web are not yet visited\<close>
  "pot L 0 = 6"
| "pot L (Suc k) = 6 + L * pot L k"

definition unseen :: "web \<Rightarrow> string set \<Rightarrow> nat" where
  "unseen web V = card (fst ` set web - V)"

fun weight :: "web \<Rightarrow> string set \<Rightarrow> task \<Rightarrow> nat" where
  \<comment> \<open>a bound on the moves left in a tree of calls, given the visited set \<open>V\<close>\<close>
  "weight web V (Queued url) =
     (if url \<in> V then 2
      else if succeeds web url then 6 + fanout web * pot (fanout web) (unseen web (insert url V))
      else 5)"
| "weight web V (Check url) =
     (if url \<in> V then 1
      else if succeeds web url then 5 + fanout web * pot (fanout web) (unseen web (insert url V))
      else 4)"
| "weight web V (Add url) =
     (if succeeds web url then 4 + fanout web * pot (fanout web) (unseen web (insert url V))
      else 3)"
| "weight web V (Get url) =
     (if succeeds web url then 3 + fanout web * pot (fanout web) (unseen web V) else 2)"
| "weight web V (Wait url) =
     (if succeeds web url then 2 + fanout web * pot (fanout web) (unseen web V) else 1)"
| "weight web V (Pool matches futures) = Suc (sum_list (map (weight web V) futures))"
| "weight web V (Done outcome) = 0"

subsection \<open>Where the URLs of a tree of calls are\<close>

fun pending :: "task \<Rightarrow> string set" where
  \<comment> \<open>the URLs of the calls that have not yet inserted theirs\<close>
  "pending (Queued url) = {url}"
| "pending (Check url) = {url}"
| "pending (Add url) = {url}"
| "pending (Pool matches futures) = (\<Union>t \<in> set futures. pending t)"
| "pending t = {}"

fun adding :: "task \<Rightarrow> string set" where
  \<comment> \<open>the URLs of the calls between the test of line 23 and the insertion of line 25\<close>
  "adding (Add url) = {url}"
| "adding (Pool matches futures) = (\<Union>t \<in> set futures. adding t)"
| "adding t = {}"

fun fetching :: "task \<Rightarrow> string set" where
  \<comment> \<open>the URLs of the calls that inserted theirs and have no answer yet\<close>
  "fetching (Get url) = {url}"
| "fetching (Wait url) = {url}"
| "fetching (Pool matches futures) = (\<Union>t \<in> set futures. fetching t)"
| "fetching t = {}"

fun getting :: "task \<Rightarrow> string set" where
  \<comment> \<open>the URLs of the calls that inserted theirs and have not yet sent the request\<close>
  "getting (Get url) = {url}"
| "getting (Pool matches futures) = (\<Union>t \<in> set futures. getting t)"
| "getting t = {}"

definition moved :: "web \<Rightarrow> state \<Rightarrow> task \<Rightarrow> state \<Rightarrow> task \<Rightarrow> bool" where
  \<comment> \<open>what one move can change: where URLs go when they leave a place\<close>
  "moved web s t s' t' =
     (visited_urls s \<subseteq> visited_urls s'
      \<and> set (requested s) \<subseteq> set (requested s')
      \<and> pending t \<subseteq> pending t' \<union> visited_urls s'
      \<and> pending t' \<subseteq> pending t \<union> {w. \<exists>u \<in> fetching t. w \<in> set (links_of web u)}
      \<and> fetching t \<subseteq> fetching t' \<union> {u. set (links_of web u) \<subseteq> pending t'}
      \<and> fetching t' \<subseteq> fetching t \<union> visited_urls s'
      \<and> visited_urls s' \<subseteq> visited_urls s \<union> pending t
      \<and> visited_urls s' \<subseteq> visited_urls s \<union> getting t'
      \<and> getting t \<subseteq> getting t' \<union> set (requested s')
      \<and> getting t' \<subseteq> getting t \<union> visited_urls s'
      \<and> set (requested s') \<subseteq> set (requested s) \<union> getting t)"

definition covered :: "web \<Rightarrow> string \<Rightarrow> state \<times> task \<Rightarrow> bool" where
  \<comment> \<open>the invariant of a crawl started at \<open>url\<close>: every visited URL is being fetched or
      has all its links visited or pending, what is visited was requested or is about to be,
      and nothing but what \<open>url\<close> reaches is visited or pending\<close>
  "covered web url c =
     ((\<forall>u \<in> visited_urls (fst c).
          u \<in> fetching (snd c) \<or> set (links_of web u) \<subseteq> visited_urls (fst c) \<union> pending (snd c))
      \<and> visited_urls (fst c) = set (requested (fst c)) \<union> getting (snd c)
      \<and> fetching (snd c) \<subseteq> visited_urls (fst c)
      \<and> (\<forall>u \<in> visited_urls (fst c) \<union> pending (snd c). reaches web url u)
      \<and> url \<in> visited_urls (fst c) \<union> pending (snd c))"

definition alone :: "state \<Rightarrow> task \<Rightarrow> bool" where
  \<comment> \<open>the invariant of a run with one worker: a call between test and insertion has a URL
      that is not visited, a call about to send its request a URL that was not requested\<close>
  "alone s t =
     (adding t \<inter> visited_urls s = {}
      \<and> getting t \<inter> set (requested s) = {}
      \<and> getting t \<subseteq> visited_urls s
      \<and> distinct (requested s)
      \<and> set (requested s) \<subseteq> visited_urls s)"

subsection \<open>The matches a tree of calls holds\<close>



section \<open>Example webs\<close>

definition ok :: "string \<Rightarrow> string \<Rightarrow> string list \<Rightarrow> string \<times> reply" where
  \<comment> \<open>a URL answered with 200 OK, the text and the hrefs of its page\<close>
  "ok url all_text hrefs =
     (url, Answer \<lparr>status_code = 200, reason = ''OK'', response_url = url,
                    soup = \<lparr>page_text = all_text, page_hrefs = hrefs\<rparr>\<rparr>)"

definition web_twice :: web where
  \<comment> \<open>a page that lists the same link twice\<close>
  "web_twice =
     [ok ''http://x.com/'' ''home'' [''/b'', ''/b''],
      ok ''http://x.com/b'' ''hello'' []]"

definition web_levels :: web where
  \<comment> \<open>two levels of links below the start page; the pages d, e and f do not answer\<close>
  "web_levels =
     [ok ''http://x.com/'' ''home'' [''/b'', ''/c''],
      ok ''http://x.com/b'' ''b'' [''/d'', ''/e''],
      ok ''http://x.com/c'' ''c'' [''/f'']]"

definition web_cycle :: web where
  \<comment> \<open>a links to b, twice, and b links back to a\<close>
  "web_cycle =
     [ok ''http://x.com/a'' ''a'' [''/b'', ''/b''],
      ok ''http://x.com/b'' ''b'' [''/a'']]"

definition web_loop :: web where
  \<comment> \<open>a links to b and b links back to a\<close>
  "web_loop =
     [ok ''http://x.com/a'' ''a'' [''/b''],
      ok ''http://x.com/b'' ''b'' [''/a'']]"

definition web_fault :: web where
  \<comment> \<open>the start page links to b, which answers 500 with a page that has the query and a
      link, to c, which has the query, and to d, which does not answer\<close>
  "web_fault =
     [ok ''http://x.com/'' ''start'' [''/b'', ''/c'', ''/d''],
      (''http://x.com/b'',
       Answer \<lparr>status_code = 500, reason = ''Internal Server Error'',
               response_url = ''http://x.com/b'',
               soup = \<lparr>page_text = ''hello from b'', page_hrefs = [''/e'']\<rparr>\<rparr>),
      ok ''http://x.com/c'' ''say hello'' [],
      (''http://x.com/d'', Raises ''timed out''),
      ok ''http://x.com/e'' ''hello'' []]"


definition web_bracket :: web where
  \<comment> \<open>the start page has the query and two anchors: one to b, which has the query, and one
      whose href opens a square bracket in the place of the host\<close>
  "web_bracket =
     [ok ''http://x.com/'' ''hello'' [''/b'', ''//[''],
      ok ''http://x.com/b'' ''hello'' []]"

section \<open>Facts about strings\<close>

lemma startswith_iff: "startswith s p \<longleftrightarrow> (\<exists>rest. s = p @ rest)"
proof
  assume "startswith s p"
  then have "s = p @ drop (length p) s"
    unfolding startswith_def by (metis append_take_drop_id)
  then show "\<exists>rest. s = p @ rest" ..
next
  assume "\<exists>rest. s = p @ rest"
  then show "startswith s p" by (auto simp: startswith_def)
qed

lemma contains_iff: "contains s sub \<longleftrightarrow> (\<exists>pre post. s = pre @ sub @ post)"
proof (induction s)
  case Nil
  then show ?case by auto
next
  case (Cons c s)
  show ?case
  proof
    assume "contains (c # s) sub"
    then consider "startswith (c # s) sub" | "contains s sub" by auto
    then show "\<exists>pre post. c # s = pre @ sub @ post"
    proof cases
      case 1
      then obtain rest where "c # s = sub @ rest" by (auto simp: startswith_iff)
      then have "c # s = [] @ sub @ rest" by simp
      then show ?thesis by blast
    next
      case 2
      with Cons.IH obtain pre post where "s = pre @ sub @ post" by blast
      then have "c # s = (c # pre) @ sub @ post" by simp
      then show ?thesis by blast
    qed
  next
    assume "\<exists>pre post. c # s = pre @ sub @ post"
    then obtain pre post where eq: "c # s = pre @ sub @ post" by blast
    show "contains (c # s) sub"
    proof (cases pre)
      case Nil
      with eq have "startswith (c # s) sub" by (auto simp: startswith_iff)
      then show ?thesis by simp
    next
      case (Cons d pre')
      with eq have "s = pre' @ sub @ post" by simp
      with Cons.IH have "contains s sub" by blast
      then show ?thesis by simp
    qed
  qed
qed


lemma count_list_map_filter:
  "count_list (map f (filter P xs)) y = length (filter (\<lambda>x. P x \<and> f x = y) xs)"
  by (induction xs) auto

lemma one_error: "(e :: error) = e'"
  by (cases e, cases e') simp

lemma join_links_returns:
  "join_links url ls = Inr links \<longleftrightarrow> map (urljoin url) ls = map Inr links"
proof (induction ls arbitrary: links)
  case Nil
  then show ?case by auto
next
  case (Cons l ls)
  show ?case
  proof (cases "urljoin url l")
    case (Inl e)
    then show ?thesis by (cases links) auto
  next
    case j: (Inr joined)
    show ?thesis
    proof (cases "join_links url ls")
      case (Inl e)
      with Cons.IH have "map (urljoin url) ls \<noteq> map Inr rest" for rest by auto
      with j Inl show ?thesis by (cases links) auto
    next
      case (Inr rest)
      with Cons.IH[of rest] have "map (urljoin url) ls = map Inr rest" by simp
      with j Inr show ?thesis by (cases links) (auto simp: inj_map_eq_map)
    qed
  qed
qed

lemma join_links_raises:
  "join_links url ls = Inl e \<longleftrightarrow> (\<exists>l \<in> set ls. urljoin url l = Inl e)"
proof (induction ls)
  case Nil
  then show ?case by simp
next
  case (Cons l ls)
  then show ?case
    by (cases "urljoin url l"; cases "join_links url ls") (auto intro: one_error)
qed

lemma extract_links_returns:
  "extract_links url hs = Inr links \<longleftrightarrow>
     map (urljoin url) (filter (is_candidate url) hs) = map Inr links"
  by (simp add: extract_links_def join_links_returns)

lemma extract_links_raises:
  "extract_links url hs = Inl e \<longleftrightarrow> (\<exists>h \<in> set hs. is_candidate url h \<and> urljoin url h = Inl e)"
  by (auto simp: extract_links_def join_links_raises)

lemma count_list_map_Inr: "count_list (map Inr xs) (Inr x) = count_list xs x"
  by (induction xs) auto

section \<open>The extractor and the matcher\<close>

text \<open>
  Claim C5, as the code has it. The claim reads: the links the extractor returns are
  deduplicated within the page, a link whose href appears twice contributes exactly one
  entry. Lines 35 and 36 build a list with two comprehensions and remove nothing: every
  anchor that passes the test of line 35 contributes one entry, in document order, so a
  link is listed as many times as candidate anchors resolve to it. The list is returned
  when \<^verbatim>\<open>urljoin\<close> accepts every candidate of the page.
\<close>

theorem extract_links_keeps_duplicates:
  "(extract_links url hs = Inr links \<longrightarrow>
      count_list links link =
        length (filter (\<lambda>h. is_candidate url h \<and> urljoin url h = Inr link) hs))
   \<and> ((\<exists>links. extract_links url hs = Inr links) \<longleftrightarrow>
        (\<forall>h \<in> set hs. is_candidate url h \<longrightarrow> urljoin url h \<noteq> Inl ValueError))"
proof -
  have a: "count_list links link =
        length (filter (\<lambda>h. is_candidate url h \<and> urljoin url h = Inr link) hs)"
    if "extract_links url hs = Inr links"
  proof -
    from that have "map (urljoin url) (filter (is_candidate url) hs) = map Inr links"
      by (simp add: extract_links_returns)
    then have "count_list links link
        = count_list (map (urljoin url) (filter (is_candidate url) hs)) (Inr link)"
      by (simp add: count_list_map_Inr)
    then show ?thesis by (simp add: count_list_map_filter)
  qed
  have "(\<exists>links. extract_links url hs = Inr links) \<longleftrightarrow> extract_links url hs \<noteq> Inl ValueError"
    by (cases "extract_links url hs") (auto intro: one_error)
  then have b: "(\<exists>links. extract_links url hs = Inr links) \<longleftrightarrow>
        (\<forall>h \<in> set hs. is_candidate url h \<longrightarrow> urljoin url h \<noteq> Inl ValueError)"
    by (auto simp: extract_links_raises)
  from a b show ?thesis by blast
qed

theorem extract_links_keeps_duplicates_witness:
  "extract_links ''http://x.com/a/'' [''/b'', ''/c'', ''/b'']
     = Inr [''http://x.com/b'', ''http://x.com/c'', ''http://x.com/b'']
   \<and> length (filter (\<lambda>h. is_candidate ''http://x.com/a/'' h
                         \<and> urljoin ''http://x.com/a/'' h = Inr ''http://x.com/b'')
               [''/b'', ''/c'', ''/b'']) = 2"
proof -
  have e: "extract_links ''http://x.com/a/'' [''/b'', ''/c'', ''/b'']
     = Inr [''http://x.com/b'', ''http://x.com/c'', ''http://x.com/b'']"
    by code_simp
  have "count_list [''http://x.com/b'', ''http://x.com/c'', ''http://x.com/b''] ''http://x.com/b''
     = (2 :: nat)"
    by simp
  with e extract_links_keeps_duplicates [of "''http://x.com/a/''" "[''/b'', ''/c'', ''/b'']"
      "[''http://x.com/b'', ''http://x.com/c'', ''http://x.com/b'']" "''http://x.com/b''"]
  show ?thesis by simp
qed

text \<open>
  Claim C5 fails as stated: a page at \<^verbatim>\<open>http://x.com/a/\<close> with two anchors to \<^verbatim>\<open>/b\<close>
  yields the link \<^verbatim>\<open>http://x.com/b\<close> twice.
\<close>

theorem extract_links_not_deduplicated:
  "extract_links ''http://x.com/a/'' [''/b'', ''/b'']
     = Inr [''http://x.com/b'', ''http://x.com/b'']
   \<and> \<not> distinct [''http://x.com/b'', ''http://x.com/b'']"
  by code_simp

text \<open>
  Claim C6: an anchor href is a candidate link if and only if it begins with \<^verbatim>\<open>/\<close> or
  begins with the URL of the current page as a literal prefix, and the links of the page
  are the candidates, resolved; \<^verbatim>\<open>http://other.com/page\<close> is not a candidate on the page
  \<^verbatim>\<open>http://x.com\<close> and yields no link there.
\<close>

theorem candidate_iff_slash_or_page_url_prefix:
  "(is_candidate url href \<longleftrightarrow>
      (\<exists>rest. href = ''/'' @ rest) \<or> (\<exists>rest. href = url @ rest))
   \<and> (extract_links url hs = Inr links \<longrightarrow>
        (link \<in> set links \<longleftrightarrow>
           (\<exists>h. h \<in> set hs
              \<and> ((\<exists>rest. h = ''/'' @ rest) \<or> (\<exists>rest. h = url @ rest))
              \<and> urljoin url h = Inr link)))
   \<and> \<not> is_candidate ''http://x.com'' ''http://other.com/page''
   \<and> extract_links ''http://x.com'' [''http://other.com/page''] = Inr []"
proof -
  have a: "is_candidate u h \<longleftrightarrow> (\<exists>rest. h = ''/'' @ rest) \<or> (\<exists>rest. h = u @ rest)" for u h
    unfolding is_candidate_def startswith_iff ..
  have b: "link \<in> set links \<longleftrightarrow>
      (\<exists>h. h \<in> set hs
         \<and> ((\<exists>rest. h = ''/'' @ rest) \<or> (\<exists>rest. h = url @ rest))
         \<and> urljoin url h = Inr link)"
    if "extract_links url hs = Inr links"
  proof -
    from that have m: "map (urljoin url) (filter (is_candidate url) hs) = map Inr links"
      by (simp add: extract_links_returns)
    have "link \<in> set links \<longleftrightarrow> Inr link \<in> set (map Inr links :: (error + string) list)"
      by auto
    also have "\<dots> \<longleftrightarrow> (\<exists>h. h \<in> set hs \<and> is_candidate url h \<and> urljoin url h = Inr link)"
      unfolding m[symmetric] by (auto intro: rev_image_eqI)
    finally show ?thesis unfolding a .
  qed
  have c: "\<not> is_candidate ''http://x.com'' ''http://other.com/page''"
    by (simp add: is_candidate_def startswith_def)
  have d: "extract_links ''http://x.com'' [''http://other.com/page''] = Inr []"
    using c by (simp add: extract_links_def)
  from a b c d show ?thesis by blast
qed

theorem candidate_iff_slash_or_page_url_prefix_witness:
  "is_candidate ''http://x.com'' ''/about''
   \<and> is_candidate ''http://x.com'' ''http://x.com/about''
   \<and> (\<exists>h. h \<in> set [''mailto:a@x.com'', ''/about'']
          \<and> ((\<exists>rest. h = ''/'' @ rest) \<or> (\<exists>rest. h = ''http://x.com'' @ rest))
          \<and> urljoin ''http://x.com'' h = Inr ''http://x.com/about'')"
proof -
  have p: "''/about'' = ''/'' @ ''about''" "''http://x.com/about'' = ''http://x.com'' @ ''/about''"
    by simp_all
  have e: "extract_links ''http://x.com'' [''mailto:a@x.com'', ''/about'']
      = Inr [''http://x.com/about'']"
    by code_simp
  note t = candidate_iff_slash_or_page_url_prefix [where url = "''http://x.com''"
      and hs = "[''mailto:a@x.com'', ''/about'']" and links = "[''http://x.com/about'']"
      and link = "''http://x.com/about''"]
  from t[where href = "''/about''"] p(1) have a: "is_candidate ''http://x.com'' ''/about''"
    by blast
  from t[where href = "''http://x.com/about''"] p(2)
  have b: "is_candidate ''http://x.com'' ''http://x.com/about''"
    by blast
  from t[where href = "''/about''"]
  have "extract_links ''http://x.com'' [''mailto:a@x.com'', ''/about'']
          = Inr [''http://x.com/about''] \<longrightarrow>
        (''http://x.com/about'' \<in> set [''http://x.com/about''] \<longleftrightarrow>
           (\<exists>h. h \<in> set [''mailto:a@x.com'', ''/about'']
              \<and> ((\<exists>rest. h = ''/'' @ rest) \<or> (\<exists>rest. h = ''http://x.com'' @ rest))
              \<and> urljoin ''http://x.com'' h = Inr ''http://x.com/about''))"
    by blast
  with e have "\<exists>h. h \<in> set [''mailto:a@x.com'', ''/about'']
              \<and> ((\<exists>rest. h = ''/'' @ rest) \<or> (\<exists>rest. h = ''http://x.com'' @ rest))
              \<and> urljoin ''http://x.com'' h = Inr ''http://x.com/about''"
    by simp
  with a b show ?thesis by blast
qed

text \<open>
  Claim C8: the match test succeeds if and only if the lower-cased query occurs in the
  lower-cased text of the page; the stored result is then the one pair of the lower-cased
  query and the URL of the page, however often the query occurs. A page with the text
  \<^verbatim>\<open>FOO bar\<close> matches the queries \<^verbatim>\<open>foo\<close> and \<^verbatim>\<open>FOO\<close>.
\<close>

theorem page_matches_lowercase_substring:
  "page_matches query url all_text =
     (if \<exists>pre post. lower all_text = pre @ lower query @ post
      then [(lower query, url)] else [])
   \<and> length (page_matches query url all_text) \<le> 1
   \<and> page_matches ''foo'' url ''FOO bar'' = [(''foo'', url)]
   \<and> page_matches ''FOO'' url ''FOO bar'' = [(''foo'', url)]
   \<and> page_matches ''foo'' url ''FOO bar foo Foo'' = [(''foo'', url)]"
proof -
  have a: "page_matches query url all_text =
     (if \<exists>pre post. lower all_text = pre @ lower query @ post
      then [(lower query, url)] else [])"
    by (simp only: page_matches_def contains_iff)
  have b: "length (page_matches query url all_text) \<le> 1"
    by (simp add: page_matches_def)
  have c: "lower ''FOO bar'' = ''foo bar''" "lower ''foo'' = ''foo''" "lower ''FOO'' = ''foo''"
    "lower ''FOO bar foo Foo'' = ''foo bar foo foo''"
    by code_simp+
  have d: "contains ''foo bar'' ''foo''" "contains ''foo bar foo foo'' ''foo''"
    by (simp_all add: startswith_def)
  from a b c d show ?thesis by (simp add: page_matches_def)
qed

theorem page_matches_lowercase_substring_witness:
  "page_matches ''Bar'' ''http://x.com'' ''FOO bar'' = [(''bar'', ''http://x.com'')]"
proof -
  have "lower ''FOO bar'' = ''foo '' @ lower ''Bar'' @ []"
    by code_simp
  then have "\<exists>pre post. lower ''FOO bar'' = pre @ lower ''Bar'' @ post"
    by blast
  moreover have "lower ''Bar'' = ''bar''"
    by code_simp
  ultimately show ?thesis
    using page_matches_lowercase_substring [of "''Bar''" "''http://x.com''" "''FOO bar''"]
    by simp
qed

section \<open>Facts about \<^verbatim>\<open>urljoin\<close>\<close>

lemma urlsplit_scheme_case:
  "(case urlsplit u d of
      Inl e \<Rightarrow> True
    | Inr parts \<Rightarrow> fst parts =
       (if has_scheme (cleaned u) then lower (before (CHR '':'') (cleaned u))
        else filter (\<lambda>c. \<not> unsafe_url_byte c)
             (rev (dropWhile c0_control_or_space (rev (dropWhile c0_control_or_space d))))))"
  by (simp add: urlsplit_def Let_def case_prod_beta has_scheme_def cleaned_def)

lemma urlsplit_scheme:
  assumes "urlsplit u d = Inr parts"
  shows "fst parts =
     (if has_scheme (cleaned u) then lower (before (CHR '':'') (cleaned u))
      else filter (\<lambda>c. \<not> unsafe_url_byte c)
             (rev (dropWhile c0_control_or_space (rev (dropWhile c0_control_or_space d)))))"
  using urlsplit_scheme_case[of u d] by (simp only: assms sum.case)

lemma urlparse_scheme:
  assumes "urlparse u d = Inr parts"
  shows "fst parts =
     (if has_scheme (cleaned u) then lower (before (CHR '':'') (cleaned u))
      else filter (\<lambda>c. \<not> unsafe_url_byte c)
             (rev (dropWhile c0_control_or_space (rev (dropWhile c0_control_or_space d)))))"
proof -
  from assms obtain sp where sp: "urlsplit u d = Inr sp" and "fst parts = fst sp"
    by (auto simp: urlparse_def Let_def case_prod_beta split: sum.splits)
  with urlsplit_scheme[OF sp] show ?thesis by simp
qed

lemma urlunparse_absolute:
  "scheme \<noteq> [] \<Longrightarrow> netloc \<noteq> [] \<Longrightarrow>
     startswith (urlunparse (scheme, netloc, path, params, query, fragment)) (scheme @ ''://'')"
  by (simp add: urlunparse_def urlunsplit_def Let_def startswith_def)

lemma http_schemes: "scheme = ''http'' \<or> scheme = ''https'' \<Longrightarrow>
    scheme \<noteq> [] \<and> scheme \<in> set uses_relative \<and> scheme \<in> set uses_netloc"
  by (auto simp: uses_relative_def uses_netloc_def)

lemma strip_http:
  "scheme = ''http'' \<or> scheme = ''https'' \<Longrightarrow>
     filter (\<lambda>c. \<not> unsafe_url_byte c)
       (rev (dropWhile c0_control_or_space (rev (dropWhile c0_control_or_space scheme)))) = scheme"
  by (auto simp: unsafe_url_byte_def c0_control_or_space_def)

lemma urljoin_absolute:
  assumes "base \<noteq> []" and "url \<noteq> []"
    and "urlparse base [] = Inr (scheme, bn, bp, bpa, bq, bf)"
    and "urlparse url scheme = Inr (scheme, n, p, pa, q, f)"
    and "scheme \<noteq> []"
    and "scheme \<in> set uses_relative" and "scheme \<in> set uses_netloc"
    and "bn \<noteq> []"
    and "urljoin base url = Inr link"
  shows "startswith link (scheme @ ''://'')"
  using assms(9) assms(1,2,5,6,7,8)
  by (auto simp: urljoin_def assms(3,4) Let_def urlunparse_absolute split: if_splits)

lemma cleaned_slash: "cleaned (CHR ''/'' # r) = CHR ''/'' # filter (\<lambda>c. \<not> unsafe_url_byte c) r"
  by (simp add: cleaned_def c0_control_or_space_def unsafe_url_byte_def)

lemma no_scheme_slash: "\<not> has_scheme (CHR ''/'' # x)"
  by (simp add: has_scheme_def is_ascii_alpha_def)

lemma scheme_of_rooted:
  assumes "scheme = ''http'' \<or> scheme = ''https''"
    and "urlparse (CHR ''/'' # r) scheme = Inr parts"
  shows "fst parts = scheme"
  using strip_http[OF assms(1)] urlparse_scheme[OF assms(2)]
  by (simp only: cleaned_slash no_scheme_slash if_False)

lemma parsed_scheme:
  assumes "urlparse url [] = Inr parts" and "fst parts \<noteq> []"
  shows "has_scheme (cleaned url)" and "fst parts = lower (before (CHR '':'') (cleaned url))"
proof -
  show "has_scheme (cleaned url)"
  proof (rule ccontr)
    assume "\<not> has_scheme (cleaned url)"
    then have "fst parts = []"
      using urlparse_scheme[OF assms(1)] by simp
    with assms(2) show False by simp
  qed
  then show "fst parts = lower (before (CHR '':'') (cleaned url))"
    using urlparse_scheme[OF assms(1)] by simp
qed

lemma cleaned_append:
  assumes "cleaned url \<noteq> []"
  shows "cleaned (url @ r) = cleaned url @ filter (\<lambda>c. \<not> unsafe_url_byte c) r"
proof -
  from assms have "dropWhile c0_control_or_space url \<noteq> []"
    unfolding cleaned_def by (metis filter.simps(1))
  then obtain x where "x \<in> set url" "\<not> c0_control_or_space x"
    by (auto simp: dropWhile_eq_Nil_conv)
  then have "dropWhile c0_control_or_space (url @ r) = dropWhile c0_control_or_space url @ r"
    by (rule dropWhile_append1)
  then show ?thesis by (simp add: cleaned_def)
qed

lemma has_scheme_append: "has_scheme a \<Longrightarrow> has_scheme (a @ b)"
proof -
  assume h: "has_scheme a"
  then have c: "CHR '':'' \<in> set a" by (simp add: has_scheme_def)
  then have "a \<noteq> []" by auto
  moreover have "before (CHR '':'') (a @ b) = before (CHR '':'') a"
    unfolding before_def using c by (intro takeWhile_append1[of "CHR '':''"]) simp_all
  ultimately show ?thesis using h by (simp add: has_scheme_def)
qed

lemma before_append: "c \<in> set a \<Longrightarrow> before c (a @ b) = before c a"
  unfolding before_def by (intro takeWhile_append1[of c]) simp_all

lemma scheme_of_extension:
  assumes "urlparse url [] = Inr parts" and "fst parts \<noteq> []"
    and "urlparse (url @ r) d = Inr parts'"
  shows "fst parts' = fst parts"
proof -
  note p = parsed_scheme[OF assms(1,2)]
  from p(1) have c: "CHR '':'' \<in> set (cleaned url)" by (simp add: has_scheme_def)
  then have ne: "cleaned url \<noteq> []" by auto
  have "has_scheme (cleaned (url @ r))"
    using p(1) by (simp add: cleaned_append[OF ne] has_scheme_append)
  moreover have "before (CHR '':'') (cleaned (url @ r)) = before (CHR '':'') (cleaned url)"
    by (simp add: cleaned_append[OF ne] before_append[OF c])
  ultimately show ?thesis using p(2) urlparse_scheme[OF assms(3)] by simp
qed

lemma candidate_resolves_to_absolute_url:
  assumes "urlparse url [] = Inr (scheme, netloc, path, params, query, fragment)"
    and "scheme = ''http'' \<or> scheme = ''https''"
    and "netloc \<noteq> []"
    and "is_candidate url href"
    and "urljoin url href = Inr link"
  shows "startswith link (scheme @ ''://'')"
proof -
  note h = http_schemes[OF assms(2)]
  have u: "url \<noteq> []"
  proof
    assume "url = []"
    with assms(1) have "scheme = []"
      by (simp add: urlparse_def urlsplit_def Let_def before_def)
    with h show False by simp
  qed
  from assms(4) consider r where "href = CHR ''/'' # r" | r where "href = url @ r"
    unfolding is_candidate_def startswith_def
    by (metis append_take_drop_id append_Cons append_Nil)
  then have ne: "href \<noteq> []" using u by cases auto
  from assms(5) u ne obtain parts where parts: "urlparse href scheme = Inr parts"
    by (auto simp: urljoin_def assms(1) split: sum.splits)
  from assms(4) consider r where "href = CHR ''/'' # r" | r where "href = url @ r"
    unfolding is_candidate_def startswith_def
    by (metis append_take_drop_id append_Cons append_Nil)
  then have "fst parts = scheme"
  proof cases
    case 1
    with parts scheme_of_rooted[OF assms(2)] show ?thesis by simp
  next
    case 2
    with parts scheme_of_extension[OF assms(1)] h show ?thesis by simp
  qed
  then obtain n p pa q f where "urlparse href scheme = Inr (scheme, n, p, pa, q, f)"
    using parts by (cases parts) auto
  from urljoin_absolute[OF u ne assms(1) this _ _ _ assms(3) assms(5)] h
  show ?thesis by blast
qed

section \<open>Facts about outcomes\<close>

lemma both_simps [simp]:
  "both (Inr {#}) a = a"
  "both a (Inr {#}) = a"
  "both (Inl e) a = Inl e"
  "both (Inr x) (Inr y) = Inr (x + y)"
  "both (Inr x) (Inl e) = Inl e"
  by (auto simp: both_def split: sum.splits intro: one_error)

lemma both_raises [simp]: "both a (Inl e) = Inl e"
  by (cases a) (auto intro: one_error)


lemma both_assoc: "both (both a b) c = both a (both b c)"
  by (cases a; cases b; cases c) (auto simp: add.assoc)


lemma gather_both: "gather matches results = both (Inr matches) (together results)"
proof (induction results arbitrary: matches)
  case Nil
  then show ?case by (simp add: together_def)
next
  case (Cons r results)
  show ?case
  proof (cases r)
    case (Inl e)
    then show ?thesis by (simp add: together_def)
  next
    case (Inr found)
    have "gather matches (r # results) = both (Inr (matches + found)) (together results)"
      using Inr Cons.IH by simp
    also have "\<dots> = both (Inr matches) (both (Inr found) (together results))"
      by (simp add: both_assoc[symmetric])
    also have "both (Inr found) (together results) = together (r # results)"
      using Inr Cons.IH[of found] by (simp add: together_def)
    finally show ?thesis .
  qed
qed

lemma together_Nil [simp]: "together [] = Inr {#}"
  by (simp add: together_def)

lemma together_Cons [simp]: "together (r # results) = both r (together results)"
proof (cases r)
  case (Inl e)
  then show ?thesis by (simp add: together_def)
next
  case (Inr found)
  then have "together (r # results) = gather found results"
    by (simp add: together_def)
  also have "\<dots> = both (Inr found) (together results)"
    by (rule gather_both)
  finally show ?thesis using Inr by simp
qed

lemma together_append [simp]: "together (xs @ ys) = both (together xs) (together ys)"
  by (induction xs) (simp_all add: both_assoc)


section \<open>Facts about the crawl, one call after the other\<close>

lemma reaches_trans: "reaches web v w \<Longrightarrow> reaches web u v \<Longrightarrow> reaches web u w"
  by (induction rule: reaches.induct) (auto intro: reaches.intros)

lemma reaches_first: "v \<in> set (links_of web u) \<Longrightarrow> reaches web v w \<Longrightarrow> reaches web u w"
  by (meson reaches_trans reaches.intros)

lemma crawl_effect_nothing: "crawl_effect web query s [] (Inr {#}, s)"
  by (simp add: crawl_effect_def)

lemma crawl_effect_append:
  assumes "crawl_effect web query s n1 (f1, s1)" and "crawl_effect web query s1 n2 (f2, s2)"
  shows "crawl_effect web query s (n1 @ n2) (both f1 f2, s2)"
  using assms unfolding crawl_effect_def by auto

lemma crawl_page_visited: "url \<in> visited_urls s \<Longrightarrow> crawl_page web query url s = (Inr {#}, s)"
  by (simp add: crawl_page.simps)

lemma crawl_page_failed:
  "url \<notin> visited_urls s \<Longrightarrow> fetch web url = RequestException e \<Longrightarrow>
     crawl_page web query url s =
       (Inr {#}, s\<lparr>visited_urls := insert url (visited_urls s),
                  requested := requested s @ [url],
                  printed := printed s @ [error_line url e]\<rparr>)"
  by (simp add: crawl_page.simps)

lemma crawl_page_raised:
  "url \<notin> visited_urls s \<Longrightarrow> fetch web url = Response p \<Longrightarrow>
   extract_links url (page_hrefs p) = Inl e \<Longrightarrow>
     crawl_page web query url s =
       (Inl e, s\<lparr>visited_urls := insert url (visited_urls s),
                 requested := requested s @ [url]\<rparr>)"
  by (simp add: crawl_page.simps)

lemma crawl_page_fetched:
  "url \<notin> visited_urls s \<Longrightarrow> fetch web url = Response p \<Longrightarrow>
   extract_links url (page_hrefs p) = Inr links \<Longrightarrow>
     crawl_page web query url s =
       (gather (mset (page_matches query url (page_text p)))
          (fst (crawl_links web query links
                  (s\<lparr>visited_urls := insert url (visited_urls s),
                     requested := requested s @ [url]\<rparr>))),
        snd (crawl_links web query links
                  (s\<lparr>visited_urls := insert url (visited_urls s),
                     requested := requested s @ [url]\<rparr>)))"
  by (simp add: crawl_page.simps Let_def split: prod.splits)

lemma crawl_links_Cons:
  "crawl_links web query (link # links) s =
     (fst (crawl_page web query link s)
        # fst (crawl_links web query links (snd (crawl_page web query link s))),
      snd (crawl_links web query links (snd (crawl_page web query link s))))"
  by (simp add: Let_def split: prod.splits)

lemma crawl_effect_exists:
  "\<exists>new. crawl_effect web query s new (crawl_page web query url s)
          \<and> (url \<in> visited_urls s \<or> (new \<noteq> [] \<and> hd new = url))
          \<and> (\<forall>u \<in> set new. reaches web url u)"
  "\<exists>new. crawl_effect web query s new
            (together (fst (crawl_links web query links s)), snd (crawl_links web query links s))
          \<and> set links \<subseteq> visited_urls s \<union> set new
          \<and> (\<forall>u \<in> set new. \<exists>l \<in> set links. reaches web l u)"
proof (induction web query url s and web query links s rule: crawl_page_crawl_links.induct)
  case (1 web query url s)
  show ?case
  proof (cases "url \<in> visited_urls s")
    case True
    have "crawl_effect web query s [] (crawl_page web query url s)"
      using True by (simp add: crawl_page_visited crawl_effect_nothing)
    with True show ?thesis by force
  next
    case False
    show ?thesis
    proof (cases "fetch web url")
      case (RequestException e)
      have "crawl_effect web query s [url] (crawl_page web query url s)"
        using False RequestException
        by (simp add: crawl_page_failed crawl_effect_def page_result_def error_lines_def links_of_def)
      then show ?thesis by (force intro: reaches.intros)
    next
      case (Response p)
      show ?thesis
      proof (cases "extract_links url (page_hrefs p)")
        case (Inl e)
        have "crawl_effect web query s [url] (crawl_page web query url s)"
          using False Response Inl
          by (simp add: crawl_page_raised crawl_effect_def page_result_def error_lines_def links_of_def)
        then show ?thesis by (force intro: reaches.intros)
      next
        case (Inr links)
        define s2 where "s2 = s\<lparr>visited_urls := insert url (visited_urls s),
                       requested := requested s @ [url]\<rparr>"
        from "1.IH"[OF False refl refl Response Inr]
        obtain new where new: "crawl_effect web query s2 new
              (together (fst (crawl_links web query links s2)), snd (crawl_links web query links s2))"
          and sub: "set links \<subseteq> visited_urls s2 \<union> set new"
          and re: "\<forall>u \<in> set new. \<exists>l \<in> set links. reaches web l u"
          unfolding s2_def by auto
        have lo: "links_of web url = links"
          using Response Inr by (simp add: links_of_def)
        have pr: "page_result web query url = Inr (mset (page_matches query url (page_text p)))"
          using Response Inr by (simp add: page_result_def)
        have "crawl_effect web query s (url # new) (crawl_page web query url s)"
          using new False sub lo pr Response
          unfolding crawl_effect_def crawl_page_fetched[OF False Response Inr] s2_def[symmetric]
          by (auto simp: s2_def error_lines_def gather_both)
        moreover have "\<forall>u \<in> set (url # new). reaches web url u"
          using re lo by (auto intro: reaches.intros reaches_first)
        ultimately show ?thesis by force
      qed
    qed
  qed
next
  case (2 web query s)
  have "crawl_effect web query s []
          (together (fst (crawl_links web query [] s)), snd (crawl_links web query [] s))"
    by (simp add: crawl_effect_nothing)
  then show ?case by force
next
  case (3 web query link links s)
  obtain f1 s1 where r1: "crawl_page web query link s = (f1, s1)"
    by (cases "crawl_page web query link s")
  obtain f2 s2 where r2: "crawl_links web query links s1 = (f2, s2)"
    by (cases "crawl_links web query links s1")
  from "3.IH"(1) r1 obtain n1 where n1: "crawl_effect web query s n1 (f1, s1)"
    and l: "link \<in> visited_urls s \<or> (n1 \<noteq> [] \<and> hd n1 = link)"
    and re1: "\<forall>u \<in> set n1. reaches web link u" by auto
  from "3.IH"(2)[OF r1[symmetric] refl] r2
  obtain n2 where n2: "crawl_effect web query s1 n2 (together f2, s2)"
    and ls: "set links \<subseteq> visited_urls s1 \<union> set n2"
    and re2: "\<forall>u \<in> set n2. \<exists>l \<in> set links. reaches web l u" by auto
  have eq: "crawl_links web query (link # links) s = (f1 # f2, s2)"
    using r1 r2 by simp
  have v1: "visited_urls s1 = visited_urls s \<union> set n1"
    using n1 by (simp add: crawl_effect_def)
  have "link \<in> visited_urls s \<union> set n1"
    using l by (cases n1) auto
  with ls v1 have "set (link # links) \<subseteq> visited_urls s \<union> set (n1 @ n2)" by auto
  moreover have "\<forall>u \<in> set (n1 @ n2). \<exists>l \<in> set (link # links). reaches web l u"
    using re1 re2 by auto
  moreover have "crawl_effect web query s (n1 @ n2)
      (together (fst (crawl_links web query (link # links) s)),
       snd (crawl_links web query (link # links) s))"
    using crawl_effect_append[OF n1 n2] unfolding eq by simp
  ultimately show ?case by blast
qed

lemma distinct_count_list: "distinct xs \<Longrightarrow> count_list xs x = (if x \<in> set xs then 1 else 0)"
  by (induction xs) auto

lemma crawl_page_effect:
  obtains new where "crawl_effect web query s new (crawl_page web query url s)"
    and "url \<in> visited_urls s \<or> (new \<noteq> [] \<and> hd new = url)"
    and "\<forall>u \<in> set new. reaches web url u"
  using crawl_effect_exists(1)[of web query s url] by blast

lemma claims_Cons:
  "claims (url # urls) s =
     (fst (claim url s) # fst (claims urls (snd (claim url s))),
      snd (claims urls (snd (claim url s))))"
  by (simp add: Let_def split: prod.splits)

lemma claim_visited: "visited_urls (snd (claim url s)) = insert url (visited_urls s)"
  by (auto simp: claim_def)

lemma claims_nth:
  "i < length urls \<Longrightarrow>
     fst (claims urls s) ! i = (urls ! i \<notin> visited_urls s \<and> urls ! i \<notin> set (take i urls))"
proof (induction urls arbitrary: s i)
  case Nil
  then show ?case by simp
next
  case (Cons url urls)
  show ?case
  proof (cases i)
    case 0
    then show ?thesis by (simp add: claims_Cons claim_def del: claims.simps(2))
  next
    case (Suc j)
    with Cons.prems have j: "j < length urls" by simp
    have "fst (claims (url # urls) s) ! i = fst (claims urls (snd (claim url s))) ! j"
      using Suc by (simp add: claims_Cons del: claims.simps(2))
    also have "\<dots> = (urls ! j \<notin> visited_urls (snd (claim url s)) \<and> urls ! j \<notin> set (take j urls))"
      using Cons.IH[OF j] .
    finally show ?thesis using Suc by (auto simp: claim_visited)
  qed
qed

lemma run_requests:
  fixes web query url
  defines "r \<equiv> crawl_page web query url initial"
  shows "distinct (requested (snd r))"
    and "set (requested (snd r)) = {v. reaches web url v}"
    and "visited_urls (snd r) = set (requested (snd r))"
    and "fst r = together (map (page_result web query) (requested (snd r)))"
    and "printed (snd r) = concat (map (error_lines web) (requested (snd r)))"
proof -
  obtain new where e: "crawl_effect web query initial new r"
    and h: "url \<in> visited_urls initial \<or> (new \<noteq> [] \<and> hd new = url)"
    and re: "\<forall>u \<in> set new. reaches web url u"
    unfolding r_def by (rule crawl_page_effect)
  have rq: "requested (snd r) = new" using e by (simp add: crawl_effect_def initial_def)
  show "distinct (requested (snd r))" using e rq by (simp add: crawl_effect_def)
  show "visited_urls (snd r) = set (requested (snd r))"
    using e rq by (simp add: crawl_effect_def initial_def)
  show "fst r = together (map (page_result web query) (requested (snd r)))"
    using e rq by (simp add: crawl_effect_def)
  show "printed (snd r) = concat (map (error_lines web) (requested (snd r)))"
    using e rq by (simp add: crawl_effect_def initial_def)
  have u: "url \<in> set new" using h by (cases new) (auto simp: initial_def)
  have cl: "\<forall>u \<in> set new. set (links_of web u) \<subseteq> set new"
    using e by (simp add: crawl_effect_def initial_def)
  have "v \<in> set new" if "reaches web url v" for v
    using that by (induction rule: reaches.induct) (use u cl in auto)
  with re rq show "set (requested (snd r)) = {v. reaches web url v}" by auto
qed



section \<open>Facts about the crawl with worker threads\<close>

lemma step_induct [consumes 1, case_names act start child]:
  assumes "step web query n path s t = Some (s', t')"
    and act: "\<And>s t s' t'. act web query s t = Some (s', t') \<Longrightarrow> P s t s' t'"
    and start: "\<And>s matches futures i.
           may_start n futures i \<Longrightarrow>
           P s (Pool matches futures) s (Pool matches (futures[i := start (futures ! i)]))"
    and child: "\<And>s matches futures i path s' c.
           i < length futures \<Longrightarrow>
           step web query n path s (futures ! i) = Some (s', c) \<Longrightarrow>
           P s (futures ! i) s' c \<Longrightarrow>
           P s (Pool matches futures) s' (Pool matches (futures[i := c]))"
  shows "P s t s' t'"
  using assms(1)
proof (induction path arbitrary: t t')
  case Nil
  then show ?case by (simp add: act)
next
  case (Cons i path)
  show ?case
  proof (cases t)
    case (Pool matches futures)
    show ?thesis
    proof (cases "path = [] \<and> is_queued (futures ! i)")
      case True
      with Cons.prems Pool show ?thesis
        by (auto split: if_splits intro: start)
    next
      case False
      with Cons.prems Pool obtain c where i: "i < length futures"
        and c: "step web query n path s (futures ! i) = Some (s', c)"
        and t': "t' = Pool matches (futures[i := c])"
        by (auto split: if_splits option.splits)
      from child[OF i c Cons.IH[OF c]] Pool t' show ?thesis by simp
    qed
  qed (use Cons.prems in simp_all)
qed

lemma run_append:
  "run web query n (a @ b) c =
     (case run web query n a c of None \<Rightarrow> None | Some c' \<Rightarrow> run web query n b c')"
  by (induction a arbitrary: c) (auto split: option.splits)

lemma run_invariant:
  assumes "run web query n sched c = Some c'"
    and "P c"
    and "\<And>path s t s' t'. P (s, t) \<Longrightarrow> step web query n path s t = Some (s', t') \<Longrightarrow> P (s', t')"
  shows "P c'"
  using assms(1,2)
proof (induction sched arbitrary: c)
  case Nil
  then show ?case by simp
next
  case (Cons path sched)
  then obtain c1 where s: "step web query n path (fst c) (snd c) = Some c1"
    and r: "run web query n sched c1 = Some c'"
    by (auto split: option.splits)
  from assms(3)[of "fst c" "snd c" path "fst c1" "snd c1"] Cons.prems(2) s have "P c1" by simp
  from Cons.IH[OF r this] show ?case .
qed

subsection \<open>The shared set only grows\<close>

lemma act_visited_grows:
  "act web query s t = Some (s', t') \<Longrightarrow> visited_urls s \<subseteq> visited_urls s'"
  by (cases t) (auto split: if_splits fetch_result.splits sum.splits)

lemma step_visited_grows:
  "step web query n path s t = Some (s', t') \<Longrightarrow> visited_urls s \<subseteq> visited_urls s'"
  by (induction rule: step_induct) (auto dest: act_visited_grows)

lemma run_visited_grows:
  assumes "run web query n sched c = Some c'"
  shows "visited_urls (fst c) \<subseteq> visited_urls (fst c')"
  using assms(1)
proof (rule run_invariant[where P = "\<lambda>x. visited_urls (fst c) \<subseteq> visited_urls (fst x)"])
  show "visited_urls (fst c) \<subseteq> visited_urls (fst c)" by simp
next
  fix path s t s' t'
  assume "visited_urls (fst c) \<subseteq> visited_urls (fst (s, t))"
    and "step web query n path s t = Some (s', t')"
  then show "visited_urls (fst c) \<subseteq> visited_urls (fst (s', t'))"
    using step_visited_grows by fastforce
qed

subsection \<open>Every pool keeps to its bound\<close>

lemma running_start: "is_queued t \<Longrightarrow> running (start t)"
  by (cases t) (simp_all add: running_def)

lemma filter_update_length:
  "i < length xs \<Longrightarrow>
     length (filter P (xs[i := y])) + (if P (xs ! i) then 1 else 0)
       = length (filter P xs) + (if P y then 1 else 0)"
proof (induction xs arbitrary: i)
  case Nil
  then show ?case by simp
next
  case (Cons x xs)
  then show ?case by (cases i) auto
qed

lemma list_all_update:
  "list_all P xs \<Longrightarrow> P y \<Longrightarrow> list_all P (xs[i := y])"
  by (auto simp: list_all_iff dest: set_update_subset_insert[THEN subsetD])

lemma act_running:
  "act web query s t = Some (s', t') \<Longrightarrow> running t"
  by (cases t) (simp_all add: running_def)

lemma step_running:
  "step web query n path s t = Some (s', t') \<Longrightarrow> running t"
  by (induction rule: step_induct) (auto dest: act_running simp: running_def)

lemma act_pools_bounded:
  "act web query s t = Some (s', t') \<Longrightarrow> pools_bounded n t \<Longrightarrow> pools_bounded n t'"
  by (cases t)
    (auto split: if_splits fetch_result.splits sum.splits
       simp: running_def list_all_iff filter_empty_conv)

lemma step_pools_bounded:
  "step web query n path s t = Some (s', t') \<Longrightarrow> pools_bounded n t \<Longrightarrow> pools_bounded n t'"
proof (induction rule: step_induct)
  case (act s t s' t')
  then show ?case by (rule act_pools_bounded)
next
  case (start s matches futures i)
  then have i: "i < length futures" and q: "is_queued (futures ! i)"
    and lt: "length (filter running futures) < n"
    by (simp_all add: may_start_def)
  have "\<not> running (futures ! i)" using q by (simp add: running_def)
  with filter_update_length[OF i, of running "start (futures ! i)"] running_start[OF q]
  have "length (filter running (futures[i := start (futures ! i)])) = Suc (length (filter running futures))"
    by simp
  moreover have "pools_bounded n (start (futures ! i))"
    using q by (cases "futures ! i") simp_all
  ultimately show ?case using start.prems lt by (simp add: list_all_update)
next
  case (child s matches futures i path s' c)
  have "running (futures ! i)" using child.hyps(2) by (rule step_running)
  with filter_update_length[OF child.hyps(1), of running c]
  have "length (filter running (futures[i := c])) \<le> length (filter running futures)"
    by (simp split: if_splits)
  moreover have "pools_bounded n (futures ! i)"
    using child.prems child.hyps(1) by (simp add: list_all_length)
  ultimately show ?case using child by (simp add: list_all_update)
qed

subsection \<open>No run is longer than the web allows\<close>

lemma pot_mono: "j \<le> k \<Longrightarrow> pot L j \<le> pot L k"
proof (induction k arbitrary: j)
  case 0
  then show ?case by simp
next
  case (Suc k)
  show ?case
  proof (cases j)
    case 0
    then show ?thesis by simp
  next
    case (Suc i)
    with Suc.prems have "i \<le> k" by simp
    from Suc.IH[OF this] Suc show ?thesis by simp
  qed
qed

lemma pot_ge: "6 \<le> pot L k"
  by (cases k) simp_all

lemma unseen_mono: "V \<subseteq> V' \<Longrightarrow> unseen web V' \<le> unseen web V"
  unfolding unseen_def by (intro card_mono) auto

lemma unseen_insert:
  "url \<in> fst ` set web \<Longrightarrow> url \<notin> V \<Longrightarrow> Suc (unseen web (insert url V)) = unseen web V"
proof -
  assume a: "url \<in> fst ` set web" "url \<notin> V"
  have "fst ` set web - V = insert url (fst ` set web - insert url V)"
    using a by auto
  moreover have "url \<notin> fst ` set web - insert url V" by simp
  ultimately show ?thesis
    unfolding unseen_def by (metis List.finite_set card_insert_disjoint finite_Diff finite_imageI)
qed

lemma succeeds_in_web: "succeeds web url \<Longrightarrow> url \<in> fst ` set web"
  by (auto simp: succeeds_def fetch_def requests_get_def
      split: option.splits fetch_result.splits reply.splits if_splits
      dest: map_of_SomeD intro: rev_image_eqI)

lemma foldr_max_ge:
  "x \<in> set xs \<Longrightarrow> f x \<le> foldr (\<lambda>u m. max (f u) m) xs (0::nat)"
  by (induction xs) (auto simp: max_def le_max_iff_disj)

lemma links_le_fanout: "length (links_of web url) \<le> fanout web"
proof (cases "succeeds web url")
  case True
  then have "url \<in> set (map fst web)" using succeeds_in_web by simp
  from foldr_max_ge[OF this, of "\<lambda>u. length (links_of web u)"] show ?thesis
    by (simp add: fanout_def)
next
  case False
  then show ?thesis by (simp add: links_of_def succeeds_def split: fetch_result.splits)
qed

lemma weight_mono: "V \<subseteq> V' \<Longrightarrow> weight web V' t \<le> weight web V t"
proof (induction t)
  case (Pool matches futures)
  then have "sum_list (map (weight web V') futures) \<le> sum_list (map (weight web V) futures)"
    by (intro sum_list_mono) auto
  then show ?case by simp
next
  case (Queued url)
  have "unseen web (insert url V') \<le> unseen web (insert url V)"
    using Queued by (intro unseen_mono) auto
  then show ?case using Queued by (auto intro!: mult_le_mono2 pot_mono)
next
  case (Check url)
  have "unseen web (insert url V') \<le> unseen web (insert url V)"
    using Check by (intro unseen_mono) auto
  then show ?case using Check by (auto intro!: mult_le_mono2 pot_mono)
next
  case (Add url)
  have "unseen web (insert url V') \<le> unseen web (insert url V)"
    using Add by (intro unseen_mono) auto
  then show ?case by (auto intro!: mult_le_mono2 pot_mono)
next
  case (Get url)
  then show ?case by (auto intro!: mult_le_mono2 pot_mono unseen_mono)
next
  case (Wait url)
  then show ?case by (auto intro!: mult_le_mono2 pot_mono unseen_mono)
qed simp

lemma weight_Queued_le: "weight web V (Queued url) \<le> pot (fanout web) (unseen web V)"
proof (cases "url \<in> V")
  case True
  then show ?thesis using pot_ge[of "fanout web" "unseen web V"] by simp
next
  case False
  show ?thesis
  proof (cases "succeeds web url")
    case True
    from unseen_insert[OF succeeds_in_web[OF True] False]
    have "pot (fanout web) (unseen web V)
            = 6 + fanout web * pot (fanout web) (unseen web (insert url V))"
      by (metis pot.simps(2))
    with True False show ?thesis by simp
  next
    case False
    then show ?thesis using pot_ge[of "fanout web" "unseen web V"] \<open>url \<notin> V\<close> by simp
  qed
qed

lemma sum_weight_Queued:
  "sum_list (map (weight web V) (map Queued links)) \<le> length links * pot (fanout web) (unseen web V)"
proof (induction links)
  case Nil
  then show ?case by simp
next
  case (Cons l links)
  with weight_Queued_le[of web V l] show ?case by simp
qed

lemma act_weight:
  assumes "act web query s t = Some (s', t')"
  shows "weight web (visited_urls s') t' < weight web (visited_urls s) t"
proof (cases t)
  case (Check url)
  with assms show ?thesis by (auto split: if_splits)
next
  case (Add url)
  with assms show ?thesis by auto
next
  case (Get url)
  with assms show ?thesis by auto
next
  case (Wait url)
  show ?thesis
  proof (cases "fetch web url")
    case (RequestException e)
    with assms Wait show ?thesis by (auto simp: succeeds_def)
  next
    case (Response p)
    show ?thesis
    proof (cases "extract_links url (page_hrefs p)")
      case (Inl e)
      with assms Wait Response show ?thesis by (auto simp: succeeds_def)
    next
      case (Inr links)
    have l: "links_of web url = links" using Response Inr by (simp add: links_of_def)
    have "length links \<le> fanout web" using links_le_fanout[of web url] l by simp
    then have "length links * pot (fanout web) (unseen web (visited_urls s))
                 \<le> fanout web * pot (fanout web) (unseen web (visited_urls s))"
      by (rule mult_le_mono1)
    with sum_weight_Queued[of web "visited_urls s" links]
    have "sum_list (map (weight web (visited_urls s)) (map Queued links))
            \<le> fanout web * pot (fanout web) (unseen web (visited_urls s))"
      by linarith
    moreover have "s' = s"
      "t' = Pool (mset (page_matches query url (page_text p))) (map Queued links)"
      using assms Wait Response Inr by auto
    ultimately show ?thesis
      using Wait Response by (simp add: succeeds_def comp_def)
    qed
  qed
next
  case (Pool matches futures)
  with assms show ?thesis by (auto split: if_splits)
qed (use assms in simp_all)

lemma sum_list_update_less:
  fixes f g :: "'a \<Rightarrow> nat"
  assumes "i < length xs" and "g y < f (xs ! i)" and "\<And>x. x \<in> set xs \<Longrightarrow> g x \<le> f x"
  shows "sum_list (map g (xs[i := y])) < sum_list (map f xs)"
  using assms
proof (induction xs arbitrary: i)
  case Nil
  then show ?case by simp
next
  case (Cons x xs)
  show ?case
  proof (cases i)
    case 0
    have "sum_list (map g xs) \<le> sum_list (map f xs)"
      using Cons.prems(3) by (intro sum_list_mono) auto
    with 0 Cons.prems(2) show ?thesis by simp
  next
    case (Suc j)
    have "sum_list (map g (xs[j := y])) < sum_list (map f xs)"
      using Cons.prems Suc by (intro Cons.IH) auto
    moreover have "g x \<le> f x" using Cons.prems(3) by simp
    ultimately show ?thesis using Suc by simp
  qed
qed

lemma weight_start: "is_queued t \<Longrightarrow> weight web V (start t) < weight web V t"
  by (cases t) auto

lemma step_weight:
  "step web query n path s t = Some (s', t') \<Longrightarrow>
     weight web (visited_urls s') t' < weight web (visited_urls s) t"
proof (induction rule: step_induct)
  case (act s t s' t')
  then show ?case by (rule act_weight)
next
  case (start s matches futures i)
  then have i: "i < length futures" and q: "is_queued (futures ! i)"
    by (simp_all add: may_start_def)
  have "sum_list (map (weight web (visited_urls s)) (futures[i := start (futures ! i)]))
          < sum_list (map (weight web (visited_urls s)) futures)"
    using i weight_start[OF q] by (intro sum_list_update_less) auto
  then show ?case by simp
next
  case (child s matches futures i path s' c)
  have "visited_urls s \<subseteq> visited_urls s'"
    using child.hyps(2) by (rule step_visited_grows)
  then have "sum_list (map (weight web (visited_urls s')) (futures[i := c]))
          < sum_list (map (weight web (visited_urls s)) futures)"
    using child.hyps(1) child.IH by (intro sum_list_update_less) (auto intro: weight_mono)
  then show ?case by simp
qed

lemma run_weight:
  "run web query n sched c = Some c' \<Longrightarrow>
     length sched + weight web (visited_urls (fst c')) (snd c')
       \<le> weight web (visited_urls (fst c)) (snd c)"
proof (induction sched arbitrary: c)
  case Nil
  then show ?case by simp
next
  case (Cons path sched)
  then obtain c1 where s: "step web query n path (fst c) (snd c) = Some c1"
    and r: "run web query n sched c1 = Some c'"
    by (auto split: option.splits)
  from s have "weight web (visited_urls (fst c1)) (snd c1) < weight web (visited_urls (fst c)) (snd c)"
    using step_weight[of web query n path "fst c" "snd c" "fst c1" "snd c1"] by simp
  with Cons.IH[OF r] show ?case by simp
qed

subsection \<open>A call that has not returned can move\<close>

lemma first_queued:
  "\<exists>t \<in> set futures. is_queued t \<Longrightarrow>
     \<exists>i < length futures. is_queued (futures ! i)
        \<and> list_all (\<lambda>t. \<not> is_queued t) (take i futures)"
proof (induction futures)
  case Nil
  then show ?case by simp
next
  case (Cons x xs)
  show ?case
  proof (cases "is_queued x")
    case True
    then have "0 < length (x # xs) \<and> is_queued ((x # xs) ! 0)
                 \<and> list_all (\<lambda>t. \<not> is_queued t) (take 0 (x # xs))"
      by simp
    then show ?thesis by blast
  next
    case False
    with Cons.prems have "\<exists>t \<in> set xs. is_queued t" by simp
    from Cons.IH[OF this] obtain i where "i < length xs" "is_queued (xs ! i)"
      "list_all (\<lambda>t. \<not> is_queued t) (take i xs)" by blast
    with False have "Suc i < length (x # xs) \<and> is_queued ((x # xs) ! Suc i)
                 \<and> list_all (\<lambda>t. \<not> is_queued t) (take (Suc i) (x # xs))"
      by simp
    then show ?thesis by blast
  qed
qed

lemma running_can_step:
  "0 < n \<Longrightarrow> running t \<Longrightarrow> \<exists>path. step web query n path s t \<noteq> None"
proof (induction t)
  case (Pool matches futures)
  show ?case
  proof (cases "\<exists>c \<in> set futures. running c")
    case True
    then obtain i where i: "i < length futures" and r: "running (futures ! i)"
      by (auto simp: in_set_conv_nth)
    from Pool.IH[OF _ Pool.prems(1) r] i obtain path where
      p: "step web query n path s (futures ! i) \<noteq> None" by auto
    have "\<not> is_queued (futures ! i)" using r by (simp add: running_def)
    with i p have "step web query n (i # path) s (Pool matches futures) \<noteq> None"
      by (auto split: option.splits)
    then show ?thesis by blast
  next
    case False
    show ?thesis
    proof (cases "list_all is_done futures")
      case True
      then have "step web query n [] s (Pool matches futures) \<noteq> None" by simp
      then show ?thesis by blast
    next
      case nd: False
      with False have "\<exists>t \<in> set futures. is_queued t"
        by (auto simp: list_all_iff running_def)
      from first_queued[OF this] obtain i where i: "i < length futures"
        and q: "is_queued (futures ! i)"
        and b: "list_all (\<lambda>t. \<not> is_queued t) (take i futures)" by blast
      have "filter running futures = []" using False by (simp add: filter_empty_conv)
      with i q b Pool.prems(1) have "may_start n futures i" by (simp add: may_start_def)
      with i q have "step web query n [i] s (Pool matches futures) \<noteq> None" by simp
      then show ?thesis by blast
    qed
  qed
next
  case (Queued url)
  then show ?case by (simp add: running_def)
next
  case (Done matches)
  then show ?case by (simp add: running_def)
next
  case (Check url)
  have "step web query n [] s (Check url) \<noteq> None" by simp
  then show ?case by blast
next
  case (Add url)
  have "step web query n [] s (Add url) \<noteq> None" by simp
  then show ?case by blast
next
  case (Get url)
  have "step web query n [] s (Get url) \<noteq> None" by simp
  then show ?case by blast
next
  case (Wait url)
  have "step web query n [] s (Wait url) \<noteq> None"
    by (simp split: fetch_result.splits sum.splits)
  then show ?case by blast
qed

lemma act_not_queued: "act web query s t = Some (s', t') \<Longrightarrow> \<not> is_queued t'"
  by (cases t) (auto split: if_splits fetch_result.splits sum.splits)

lemma step_not_queued: "step web query n path s t = Some (s', t') \<Longrightarrow> \<not> is_queued t'"
  by (induction rule: step_induct) (auto dest: act_not_queued)

lemma run_not_queued:
  "run web query n sched c = Some c' \<Longrightarrow> \<not> is_queued (snd c) \<Longrightarrow> \<not> is_queued (snd c')"
proof (induction sched arbitrary: c)
  case Nil
  then show ?case by simp
next
  case (Cons path sched)
  then obtain c1 where s: "step web query n path (fst c) (snd c) = Some c1"
    and r: "run web query n sched c1 = Some c'"
    by (auto split: option.splits)
  from s have "\<not> is_queued (snd c1)"
    using step_not_queued[of web query n path "fst c" "snd c" "fst c1" "snd c1"] by simp
  from Cons.IH[OF r this] show ?case .
qed

lemma run_completes:
  assumes "0 < n" and "\<not> is_queued t"
  shows "\<exists>sched s' found. run web query n sched (s, t) = Some (s', Done found)"
  using assms(2)
proof (induction "weight web (visited_urls s) t" arbitrary: s t rule: less_induct)
  case less
  show ?case
  proof (cases "is_done t")
    case True
    then obtain found where "t = Done found" by (cases t) simp_all
    then have "run web query n [] (s, t) = Some (s, Done found)" by simp
    then show ?thesis by blast
  next
    case False
    with less.prems have "running t" by (simp add: running_def)
    from running_can_step[OF assms(1) this] obtain path s1 t1 where
      st: "step web query n path s t = Some (s1, t1)" by fastforce
    from step_weight[OF st] step_not_queued[OF st] less.hyps[of s1 t1]
    obtain sched s' found where "run web query n sched (s1, t1) = Some (s', Done found)"
      by blast
    with st have "run web query n (path # sched) (s, t) = Some (s', Done found)" by simp
    then show ?thesis by blast
  qed
qed

lemma getting_fetching: "getting t \<subseteq> fetching t"
  by (induction t) auto

lemma set_update_cases:
  "i < length xs \<Longrightarrow> x \<in> set (xs[i := y]) \<Longrightarrow> x = y \<or> x \<in> set xs"
  by (auto dest: set_update_subset_insert[THEN subsetD])

lemma set_update_keeps:
  "i < length xs \<Longrightarrow> x \<in> set xs \<Longrightarrow> x = xs ! i \<or> x \<in> set (xs[i := y])"
  by (metis in_set_conv_nth length_list_update nth_list_update_neq)

lemma Union_update:
  assumes "i < length xs"
  shows "(\<Union>x \<in> set (xs[i := y]). F x) \<subseteq> (\<Union>x \<in> set xs. F x) \<union> F y
       \<and> (\<Union>x \<in> set xs. F x) \<subseteq> (\<Union>x \<in> set (xs[i := y]). F x) \<union> F (xs ! i)
       \<and> F y \<subseteq> (\<Union>x \<in> set (xs[i := y]). F x)
       \<and> F (xs ! i) \<subseteq> (\<Union>x \<in> set xs. F x)"
proof (intro conjI)
  show "(\<Union>x \<in> set (xs[i := y]). F x) \<subseteq> (\<Union>x \<in> set xs. F x) \<union> F y"
    using set_update_cases[OF assms] by fastforce
  show "(\<Union>x \<in> set xs. F x) \<subseteq> (\<Union>x \<in> set (xs[i := y]). F x) \<union> F (xs ! i)"
    using set_update_keeps[OF assms] by fastforce
  show "F y \<subseteq> (\<Union>x \<in> set (xs[i := y]). F x)"
    using assms by (auto intro: set_update_memI)
  show "F (xs ! i) \<subseteq> (\<Union>x \<in> set xs. F x)"
    using nth_mem[OF assms] by blast
qed

lemma done_holds_nothing:
  "is_done t \<Longrightarrow> pending t = {} \<and> fetching t = {} \<and> getting t = {}"
  by (cases t) simp_all

lemma act_moved: "act web query s t = Some (s', t') \<Longrightarrow> moved web s t s' t'"
proof (cases t)
  case (Pool matches futures)
  assume a: "act web query s t = Some (s', t')"
  with Pool have d: "list_all is_done futures" and "s' = s"
    by (auto split: if_splits)
  then have "pending t = {}" "fetching t = {}" "getting t = {}"
    using Pool done_holds_nothing by (auto simp: list_all_iff)
  moreover have "pending t' = {}" "fetching t' = {}" "getting t' = {}"
    using a Pool by (auto split: if_splits)
  ultimately show ?thesis using \<open>s' = s\<close> by (simp add: moved_def)
qed (auto simp: moved_def links_of_def split: if_splits fetch_result.splits sum.splits)

lemma start_same:
  "is_queued t \<Longrightarrow> pending (start t) = pending t"
  "is_queued t \<Longrightarrow> fetching (start t) = fetching t"
  "is_queued t \<Longrightarrow> getting (start t) = getting t"
  by (cases t; simp)+

lemma step_moved: "step web query n path s t = Some (s', t') \<Longrightarrow> moved web s t s' t'"
proof (induction rule: step_induct)
  case (act s t s' t')
  then show ?case by (rule act_moved)
next
  case (start s matches futures i)
  then have i: "i < length futures" and q: "is_queued (futures ! i)"
    by (simp_all add: may_start_def)
  have "futures[i := start (futures ! i)] ! i = start (futures ! i)" using i by simp
  note u = Union_update[OF i, where y = "start (futures ! i)"]
  have "pending (Pool matches (futures[i := start (futures ! i)])) = pending (Pool matches futures)"
    using u[where F = pending] start_same(1)[OF q]
    by auto
  moreover
  have "fetching (Pool matches (futures[i := start (futures ! i)])) = fetching (Pool matches futures)"
    using u[where F = fetching] start_same(2)[OF q]
    by auto
  moreover
  have "getting (Pool matches (futures[i := start (futures ! i)])) = getting (Pool matches futures)"
    using u[where F = getting] start_same(3)[OF q]
    by auto
  ultimately show ?case unfolding moved_def by (simp only:) auto
next
  case (child s matches futures i path s' c)
  note i = child.hyps(1)
  note u = Union_update[OF i, where y = c]
  let ?T = "Pool matches futures" and ?T' = "Pool matches (futures[i := c])"
  let ?t = "futures ! i"
  have p: "pending ?T' \<subseteq> pending ?T \<union> pending c" "pending ?T \<subseteq> pending ?T' \<union> pending ?t"
    "pending c \<subseteq> pending ?T'" "pending ?t \<subseteq> pending ?T"
    using u[where F = pending] by simp_all
  have f: "fetching ?T' \<subseteq> fetching ?T \<union> fetching c" "fetching ?T \<subseteq> fetching ?T' \<union> fetching ?t"
    "fetching c \<subseteq> fetching ?T'" "fetching ?t \<subseteq> fetching ?T"
    using u[where F = fetching] by simp_all
  have g: "getting ?T' \<subseteq> getting ?T \<union> getting c" "getting ?T \<subseteq> getting ?T' \<union> getting ?t"
    "getting c \<subseteq> getting ?T'" "getting ?t \<subseteq> getting ?T"
    using u[where F = getting] by simp_all
  from child.IH have m: "moved web s ?t s' c" .
  then have m1: "visited_urls s \<subseteq> visited_urls s'"
    and m2: "set (requested s) \<subseteq> set (requested s')"
    and m3: "pending ?t \<subseteq> pending c \<union> visited_urls s'"
    and m4: "pending c \<subseteq> pending ?t \<union> {w. \<exists>u \<in> fetching ?t. w \<in> set (links_of web u)}"
    and m5: "fetching ?t \<subseteq> fetching c \<union> {u. set (links_of web u) \<subseteq> pending c}"
    and m6: "fetching c \<subseteq> fetching ?t \<union> visited_urls s'"
    and m7: "visited_urls s' \<subseteq> visited_urls s \<union> pending ?t"
    and m8: "visited_urls s' \<subseteq> visited_urls s \<union> getting c"
    and m9: "getting ?t \<subseteq> getting c \<union> set (requested s')"
    and m10: "getting c \<subseteq> getting ?t \<union> visited_urls s'"
    and m11: "set (requested s') \<subseteq> set (requested s) \<union> getting ?t"
    unfolding moved_def by blast+
  show ?case
    unfolding moved_def
  proof (intro conjI)
    show "visited_urls s \<subseteq> visited_urls s'" by fact
    show "set (requested s) \<subseteq> set (requested s')" by fact
    show "pending ?T \<subseteq> pending ?T' \<union> visited_urls s'"
      using m3 p(2,3) by blast
    show "pending ?T' \<subseteq> pending ?T \<union> {w. \<exists>u \<in> fetching ?T. w \<in> set (links_of web u)}"
    proof
      fix w assume "w \<in> pending ?T'"
      with p(1) consider "w \<in> pending ?T" | "w \<in> pending c" by blast
      then show "w \<in> pending ?T \<union> {w. \<exists>u \<in> fetching ?T. w \<in> set (links_of web u)}"
      proof cases
        case 1
        then show ?thesis by blast
      next
        case 2
        with m4 consider "w \<in> pending ?t" | u where "u \<in> fetching ?t" "w \<in> set (links_of web u)"
          by blast
        then show ?thesis
        proof cases
          case 1
          with p(4) show ?thesis by blast
        next
          case 2
          with f(4) show ?thesis by blast
        qed
      qed
    qed
    show "fetching ?T \<subseteq> fetching ?T' \<union> {u. set (links_of web u) \<subseteq> pending ?T'}"
    proof
      fix u assume "u \<in> fetching ?T"
      with f(2) consider "u \<in> fetching ?T'" | "u \<in> fetching ?t" by blast
      then show "u \<in> fetching ?T' \<union> {u. set (links_of web u) \<subseteq> pending ?T'}"
      proof cases
        case 1
        then show ?thesis by blast
      next
        case 2
        with m5 consider "u \<in> fetching c" | "set (links_of web u) \<subseteq> pending c" by blast
        then show ?thesis
        proof cases
          case 1
          with f(3) show ?thesis by blast
        next
          case 2
          with p(3) show ?thesis by blast
        qed
      qed
    qed
    show "fetching ?T' \<subseteq> fetching ?T \<union> visited_urls s'"
      using m6 f(1,4) by blast
    show "visited_urls s' \<subseteq> visited_urls s \<union> pending ?T"
      using m7 p(4) by blast
    show "visited_urls s' \<subseteq> visited_urls s \<union> getting ?T'"
      using m8 g(3) by blast
    show "getting ?T \<subseteq> getting ?T' \<union> set (requested s')"
      using m9 g(2,3) by blast
    show "getting ?T' \<subseteq> getting ?T \<union> visited_urls s'"
      using m10 g(1,4) by blast
    show "set (requested s') \<subseteq> set (requested s) \<union> getting ?T"
      using m11 g(4) by blast
  qed
qed

lemma covered_initial: "covered web url (initial, Check url)"
  by (simp add: covered_def initial_def reaches.intros)

lemma covered_step:
  assumes "covered web url (s, t)" and "step web query n path s t = Some (s', t')"
  shows "covered web url (s', t')"
proof -
  from step_moved[OF assms(2)] have m: "moved web s t s' t'" .
  note gf = getting_fetching[of t] getting_fetching[of t']
  from assms(1) have
    a: "\<forall>u \<in> visited_urls s. u \<in> fetching t \<or> set (links_of web u) \<subseteq> visited_urls s \<union> pending t"
    and b: "visited_urls s = set (requested s) \<union> getting t"
    and c: "fetching t \<subseteq> visited_urls s"
    and d: "\<forall>u \<in> visited_urls s \<union> pending t. reaches web url u"
    and e: "url \<in> visited_urls s \<union> pending t"
    unfolding covered_def fst_conv snd_conv by blast+
  have a': "\<forall>u \<in> visited_urls s'. u \<in> fetching t' \<or> set (links_of web u) \<subseteq> visited_urls s' \<union> pending t'"
  proof
    fix u assume u: "u \<in> visited_urls s'"
    show "u \<in> fetching t' \<or> set (links_of web u) \<subseteq> visited_urls s' \<union> pending t'"
    proof (cases "u \<in> visited_urls s")
      case True
      with a have "u \<in> fetching t \<or> set (links_of web u) \<subseteq> visited_urls s \<union> pending t" by blast
      then show ?thesis using m unfolding moved_def by blast
    next
      case False
      with u m have "u \<in> getting t'" unfolding moved_def by blast
      with gf show ?thesis by blast
    qed
  qed
  have b': "visited_urls s' = set (requested s') \<union> getting t'"
    using m b unfolding moved_def by blast
  have c': "fetching t' \<subseteq> visited_urls s'"
    using m c unfolding moved_def by blast
  have d': "\<forall>u \<in> visited_urls s' \<union> pending t'. reaches web url u"
  proof
    fix u assume "u \<in> visited_urls s' \<union> pending t'"
    then consider "u \<in> visited_urls s \<union> pending t"
      | v where "v \<in> fetching t" "u \<in> set (links_of web v)"
      using m unfolding moved_def by blast
    then show "reaches web url u"
    proof cases
      case 1
      with d show ?thesis by blast
    next
      case 2
      with c d have "reaches web url v" by blast
      with 2 show ?thesis by (auto intro: reaches.intros)
    qed
  qed
  have e': "url \<in> visited_urls s' \<union> pending t'"
    using m e unfolding moved_def by blast
  from a' b' c' d' e' show ?thesis by (simp add: covered_def)
qed

lemma run_covered:
  assumes "run web query n sched (initial, Check url) = Some c'"
  shows "covered web url c'"
  using assms
proof (rule run_invariant[where P = "covered web url"])
  show "covered web url (initial, Check url)" by (rule covered_initial)
next
  fix path s t s' t'
  assume "covered web url (s, t)" and "step web query n path s t = Some (s', t')"
  then show "covered web url (s', t')" by (rule covered_step)
qed

lemma done_fetches_reachable:
  assumes "run web query n sched (initial, Check url) = Some (s', Done found)"
  shows "set (requested s') = {v. reaches web url v}"
    and "visited_urls s' = set (requested s')"
proof -
  from run_covered[OF assms] have
    "(\<forall>u \<in> visited_urls s'. set (links_of web u) \<subseteq> visited_urls s' \<union> {})
      \<and> visited_urls s' = set (requested s') \<union> {}
      \<and> (\<forall>u \<in> visited_urls s' \<union> {}. reaches web url u)
      \<and> url \<in> visited_urls s' \<union> {}"
    unfolding covered_def fst_conv snd_conv pending.simps fetching.simps getting.simps
    by blast
  then have
    a: "\<forall>u \<in> visited_urls s'. set (links_of web u) \<subseteq> visited_urls s'"
    and b: "visited_urls s' = set (requested s')"
    and d: "\<forall>u \<in> visited_urls s'. reaches web url u"
    and e: "url \<in> visited_urls s'"
    by auto
  have "v \<in> visited_urls s'" if "reaches web url v" for v
    using that by (induction rule: reaches.induct) (use a e in auto)
  with d b show "set (requested s') = {v. reaches web url v}" by auto
  show "visited_urls s' = set (requested s')" by fact
qed







subsection \<open>One call after the other is one of the schedules\<close>

lemma run_lift:
  "run web query n sched (s, t) = Some (s', t') \<Longrightarrow> i < length futures \<Longrightarrow>
   futures ! i = t \<Longrightarrow> \<not> is_queued t \<Longrightarrow>
     run web query n (map ((#) i) sched) (s, Pool matches futures)
       = Some (s', Pool matches (futures[i := t']))"
proof (induction sched arbitrary: s t futures)
  case Nil
  then show ?case by auto
next
  case (Cons path sched)
  from Cons.prems(1) obtain s1 t1 where st: "step web query n path s t = Some (s1, t1)"
    and r: "run web query n sched (s1, t1) = Some (s', t')"
    by (auto split: option.splits)
  have "step web query n (i # path) s (Pool matches futures)
          = Some (s1, Pool matches (futures[i := t1]))"
    using st Cons.prems(2,3,4) by simp
  moreover have "run web query n (map ((#) i) sched) (s1, Pool matches (futures[i := t1]))
          = Some (s', Pool matches ((futures[i := t1])[i := t']))"
    using r Cons.prems(2) step_not_queued[OF st] by (intro Cons.IH) simp_all
  ultimately show ?case by simp
qed

lemma run_then:
  "run web query n a c = Some c1 \<Longrightarrow> run web query n b c1 = Some c2 \<Longrightarrow>
     run web query n (a @ b) c = Some c2"
  by (simp add: run_append)

lemma sequential_is_a_schedule:
  "0 < n \<Longrightarrow> \<exists>sched. run web query n sched (s, Check url)
              = Some (snd (crawl_page web query url s), Done (fst (crawl_page web query url s)))"
  "0 < n \<Longrightarrow> \<forall>matches ds. list_all is_done ds \<longrightarrow>
     (\<exists>sched.
        run web query n sched (s, Pool matches (ds @ map Queued links))
          = Some (snd (crawl_links web query links s),
                  Pool matches (ds @ map Done (fst (crawl_links web query links s)))))"
proof (induction web query url s and web query links s rule: crawl_page_crawl_links.induct)
  case (1 web query url s)
  show ?case
  proof (cases "url \<in> visited_urls s")
    case True
    then have "run web query n [[]] (s, Check url) = Some (s, Done (Inr {#}))" by simp
    with True show ?thesis by (metis crawl_page_visited fst_conv snd_conv)
  next
    case False
    define s1 where "s1 = s\<lparr>visited_urls := insert url (visited_urls s)\<rparr>"
    define s2 where "s2 = s1\<lparr>requested := requested s1 @ [url]\<rparr>"
    have r3: "run web query n [[], [], []] (s, Check url) = Some (s2, Wait url)"
      using False by (simp add: s1_def s2_def)
    show ?thesis
    proof (cases "fetch web url")
      case (RequestException e)
      have "run web query n [[]] (s2, Wait url)
              = Some (s2\<lparr>printed := printed s2 @ [error_line url e]\<rparr>, Done (Inr {#}))"
        using RequestException by simp
      from run_then[OF r3 this]
      have "run web query n ([[], [], []] @ [[]]) (s, Check url)
              = Some (s2\<lparr>printed := printed s2 @ [error_line url e]\<rparr>, Done (Inr {#}))" .
      moreover have "crawl_page web query url s
              = (Inr {#}, s2\<lparr>printed := printed s2 @ [error_line url e]\<rparr>)"
        using False RequestException by (simp add: crawl_page_failed s1_def s2_def)
      ultimately show ?thesis by (metis fst_conv snd_conv)
    next
      case (Response p)
      show ?thesis
      proof (cases "extract_links url (page_hrefs p)")
        case (Inl e)
        have "run web query n [[]] (s2, Wait url) = Some (s2, Done (Inl e))"
          using Response Inl by simp
        from run_then[OF r3 this]
        have "run web query n ([[], [], []] @ [[]]) (s, Check url) = Some (s2, Done (Inl e))" .
        moreover have "crawl_page web query url s = (Inl e, s2)"
          using False Response Inl by (simp add: crawl_page_raised s1_def s2_def)
        ultimately show ?thesis by (metis fst_conv snd_conv)
      next
        case (Inr links)
        define matches where "matches = mset (page_matches query url (page_text p))"
        define outcomes where "outcomes = fst (crawl_links web query links s2)"
        define s3 where "s3 = snd (crawl_links web query links s2)"
        have r4: "run web query n [[]] (s2, Wait url) = Some (s2, Pool matches (map Queued links))"
          using Response Inr by (simp add: matches_def)
        have "list_all is_done ([] :: task list)" by simp
        with "1.IH"[OF False s1_def s2_def Response Inr "1.prems"]
        obtain sched where
          r5: "run web query n sched (s2, Pool matches ([] @ map Queued links))
                 = Some (s3, Pool matches ([] @ map Done outcomes))"
          unfolding outcomes_def s3_def by blast
        have "step web query n [] s3 (Pool matches (map Done outcomes))
                = Some (s3, Done (gather matches outcomes))"
          by (simp add: list_all_iff comp_def)
        then have r6: "run web query n [[]] (s3, Pool matches (map Done outcomes))
                = Some (s3, Done (gather matches outcomes))"
          by simp
        from r5 have r5': "run web query n sched (s2, Pool matches (map Queued links))
                 = Some (s3, Pool matches (map Done outcomes))"
          by simp
        from run_then[OF run_then[OF run_then[OF r3 r4] r5'] r6]
        have "run web query n ((([[], [], []] @ [[]]) @ sched) @ [[]]) (s, Check url)
                = Some (s3, Done (gather matches outcomes))" .
        moreover have "crawl_page web query url s = (gather matches outcomes, s3)"
          using crawl_page_fetched[OF False Response Inr, of query]
          by (simp add: s1_def s2_def s3_def matches_def outcomes_def)
        ultimately show ?thesis by (metis fst_conv snd_conv)
      qed
    qed
  qed
next
  case (2 web query s)
  show ?case
  proof (intro allI impI)
    fix matches ds
    have "run web query n [] (s, Pool matches (ds @ map Queued []))
            = Some (snd (crawl_links web query [] s),
                    Pool matches (ds @ map Done (fst (crawl_links web query [] s))))"
      by simp
    then show "\<exists>sched.
        run web query n sched (s, Pool matches (ds @ map Queued []))
          = Some (snd (crawl_links web query [] s),
                  Pool matches (ds @ map Done (fst (crawl_links web query [] s))))"
      by blast
  qed
next
  case (3 web query link links s)
  define f1 where "f1 = fst (crawl_page web query link s)"
  define s1 where "s1 = snd (crawl_page web query link s)"
  have p: "crawl_page web query link s = (f1, s1)" by (simp add: f1_def s1_def)
  from "3.IH"(1)[OF "3.prems"] obtain sched1 where
    r1: "run web query n sched1 (s, Check link) = Some (s1, Done f1)"
    unfolding f1_def s1_def by blast
  show ?case
  proof (intro allI impI)
    fix matches ds
    assume ds: "list_all is_done ds"
    let ?i = "length ds"
    let ?fs = "ds @ map Queued (link # links)"
    have nr: "filter running ?fs = []"
      using ds by (auto simp: filter_empty_conv running_def list_all_iff)
    have nq: "\<not> is_queued t" if "t \<in> set ds" for t
      using ds that by (cases t) (auto simp: list_all_iff)
    have "may_start n ?fs ?i"
      using "3.prems" nr nq
      by (auto simp: may_start_def nth_append list_all_iff)
    then have "step web query n [?i] s (Pool matches ?fs)
                 = Some (s, Pool matches (?fs[?i := start (?fs ! ?i)]))"
      by (simp add: nth_append)
    moreover have "?fs[?i := start (?fs ! ?i)] = ds @ Check link # map Queued links"
      by (simp add: nth_append list_update_append)
    ultimately have a: "run web query n [[?i]] (s, Pool matches ?fs)
                 = Some (s, Pool matches (ds @ Check link # map Queued links))"
      by simp
    have "run web query n (map ((#) ?i) sched1) (s, Pool matches (ds @ Check link # map Queued links))
            = Some (s1, Pool matches ((ds @ Check link # map Queued links)[?i := Done f1]))"
      by (rule run_lift[OF r1]) (simp_all add: nth_append)
    moreover have "(ds @ Check link # map Queued links)[?i := Done f1]
                     = (ds @ [Done f1]) @ map Queued links"
      by (simp add: list_update_append)
    ultimately have b: "run web query n (map ((#) ?i) sched1)
              (s, Pool matches (ds @ Check link # map Queued links))
            = Some (s1, Pool matches ((ds @ [Done f1]) @ map Queued links))"
      by simp
    have "list_all is_done (ds @ [Done f1])" using ds by simp
    with "3.IH"(2)[OF p[symmetric] refl "3.prems"] s1_def obtain sched2 where
      c: "run web query n sched2 (s1, Pool matches ((ds @ [Done f1]) @ map Queued links))
            = Some (snd (crawl_links web query links s1),
                    Pool matches ((ds @ [Done f1]) @ map Done (fst (crawl_links web query links s1))))"
      by blast
    have e: "crawl_links web query (link # links) s
               = (f1 # fst (crawl_links web query links s1), snd (crawl_links web query links s1))"
      by (simp add: crawl_links_Cons f1_def s1_def del: crawl_links.simps(2))
    from run_then[OF run_then[OF a b] c]
    have "run web query n (([[?i]] @ map ((#) ?i) sched1) @ sched2) (s, Pool matches ?fs)
            = Some (snd (crawl_links web query (link # links) s),
                    Pool matches (ds @ map Done (fst (crawl_links web query (link # links) s))))"
      unfolding e by simp
    then show "\<exists>sched.
        run web query n sched (s, Pool matches (ds @ map Queued (link # links)))
          = Some (snd (crawl_links web query (link # links) s),
                  Pool matches (ds @ map Done (fst (crawl_links web query (link # links) s))))"
      by blast
  qed
qed

subsection \<open>One worker: no two calls between test and insertion\<close>

lemma idle_holds_nothing: "\<not> running t \<Longrightarrow> adding t = {} \<and> getting t = {}"
  by (cases t) (simp_all add: running_def)

lemma one_running:
  "length (filter P xs) \<le> 1 \<Longrightarrow> i < length xs \<Longrightarrow> j < length xs \<Longrightarrow>
     P (xs ! i) \<Longrightarrow> P (xs ! j) \<Longrightarrow> i = j"
proof (induction xs arbitrary: i j)
  case Nil
  then show ?case by simp
next
  case (Cons x xs)
  show ?case
  proof (cases "P x")
    case True
    with Cons.prems(1) have "filter P xs = []" by simp
    then have none: "\<And>k. k < length xs \<Longrightarrow> \<not> P (xs ! k)"
      by (simp add: filter_empty_conv)
    have "i = 0" using none[of "i - 1"] Cons.prems(2,4) by (cases i) auto
    moreover have "j = 0" using none[of "j - 1"] Cons.prems(3,5) by (cases j) auto
    ultimately show ?thesis by simp
  next
    case False
    with Cons.prems obtain i' j' where "i = Suc i'" "j = Suc j'"
      by (cases i; cases j) auto
    with Cons.IH[of i' j'] Cons.prems False show ?thesis by simp
  qed
qed

lemma siblings_idle:
  assumes "length (filter running futures) \<le> 1" and "i < length futures"
    and "running (futures ! i)" and "x \<in> set (futures[i := c])"
  shows "x = c \<or> \<not> running x"
proof -
  from assms(4) obtain j where j: "j < length futures" and x: "x = futures[i := c] ! j"
    by (auto simp: in_set_conv_nth)
  show ?thesis
  proof (cases "j = i")
    case True
    with x assms(2) show ?thesis by simp
  next
    case False
    with x have "x = futures ! j" by simp
    with one_running[OF assms(1) assms(2) j assms(3)] False show ?thesis by auto
  qed
qed

lemma act_alone:
  "act web query s t = Some (s', t') \<Longrightarrow> alone s t \<Longrightarrow> alone s' t'"
proof (cases t)
  case (Pool matches futures)
  assume "act web query s t = Some (s', t')" and "alone s t"
  with Pool show ?thesis by (auto simp: alone_def split: if_splits)
qed (auto simp: alone_def split: if_splits fetch_result.splits sum.splits)

lemma step_alone:
  "step web query n path s t = Some (s', t') \<Longrightarrow> n = 1 \<Longrightarrow> pools_bounded n t \<Longrightarrow>
     alone s t \<Longrightarrow> alone s' t'"
proof (induction rule: step_induct)
  case (act s t s' t')
  then show ?case by (auto dest: act_alone)
next
  case (start s matches futures i)
  then have i: "i < length futures" and q: "is_queued (futures ! i)"
    by (simp_all add: may_start_def)
  have "adding (start (futures ! i)) = {}" "getting (start (futures ! i)) = {}"
    using q by (cases "futures ! i"; simp)+
  then have "adding (Pool matches (futures[i := start (futures ! i)])) \<subseteq> adding (Pool matches futures)"
    and "getting (Pool matches (futures[i := start (futures ! i)])) \<subseteq> getting (Pool matches futures)"
    using Union_update[OF i, where F = adding and y = "start (futures ! i)"]
      Union_update[OF i, where F = getting and y = "start (futures ! i)"]
    by auto
  with start.prems(3) show ?case unfolding alone_def by blast
next
  case (child s matches futures i path s' c)
  note i = child.hyps(1)
  have r: "running (futures ! i)" using child.hyps(2) by (rule step_running)
  have b: "length (filter running futures) \<le> 1" and pb: "pools_bounded n (futures ! i)"
    using child.prems(1,2) i by (simp_all add: list_all_length)
  have sub: "adding (futures ! i) \<subseteq> adding (Pool matches futures)"
    "getting (futures ! i) \<subseteq> getting (Pool matches futures)"
    using Union_update[OF i, where F = adding] Union_update[OF i, where F = getting] by simp_all
  with child.prems(3) have "alone s (futures ! i)" unfolding alone_def by blast
  from child.IH[OF child.prems(1) pb this] have a: "alone s' c" .
  have "adding x = {} \<and> getting x = {}" if "x \<in> set (futures[i := c])" "x \<noteq> c" for x
    using siblings_idle[OF b i r that(1)] that(2) idle_holds_nothing by blast
  then have "adding (Pool matches (futures[i := c])) \<subseteq> adding c"
    and "getting (Pool matches (futures[i := c])) \<subseteq> getting c"
    by auto
  with a show ?case unfolding alone_def by blast
qed

lemma one_worker_distinct:
  assumes "run web query 1 sched (initial, Check url) = Some c'"
  shows "distinct (requested (fst c'))"
proof -
  have "pools_bounded 1 (snd c') \<and> alone (fst c') (snd c')"
    using assms
  proof (rule run_invariant[where P = "\<lambda>c. pools_bounded 1 (snd c) \<and> alone (fst c) (snd c)"])
    show "pools_bounded 1 (snd (initial, Check url)) \<and> alone (fst (initial, Check url)) (snd (initial, Check url))"
      by (simp add: alone_def initial_def)
  next
    fix path s t s' t'
    assume "pools_bounded 1 (snd (s, t)) \<and> alone (fst (s, t)) (snd (s, t))"
      and "step web query 1 path s t = Some (s', t')"
    then show "pools_bounded 1 (snd (s', t')) \<and> alone (fst (s', t')) (snd (s', t'))"
      using step_pools_bounded[of web query 1 path s t s' t'] step_alone[of web query 1 path s t s' t']
      by simp
  qed
  then show ?thesis by (simp add: alone_def)
qed

lemma run_pending:
  "run web query n sched c = Some c' \<Longrightarrow>
     pending (snd c) \<subseteq> pending (snd c') \<union> visited_urls (fst c')"
proof (induction sched arbitrary: c)
  case Nil
  then show ?case by auto
next
  case (Cons path sched)
  then obtain c1 where s: "step web query n path (fst c) (snd c) = Some c1"
    and r: "run web query n sched c1 = Some c'"
    by (auto split: option.splits)
  from s have "moved web (fst c) (snd c) (fst c1) (snd c1)"
    using step_moved[of web query n path "fst c" "snd c" "fst c1" "snd c1"] by simp
  then have "pending (snd c) \<subseteq> pending (snd c1) \<union> visited_urls (fst c1)"
    by (simp add: moved_def)
  moreover have "visited_urls (fst c1) \<subseteq> visited_urls (fst c')"
    using r by (rule run_visited_grows)
  ultimately show ?case using Cons.IH[OF r] by blast
qed

lemma returned_is_visited:
  assumes "run web query n sched (s, Check url) = Some (s', t')" and "is_done t'"
  shows "url \<in> visited_urls s'"
proof -
  from assms(2) have "pending t' = {}" by (cases t') simp_all
  with run_pending[OF assms(1)] show ?thesis by simp
qed






section \<open>The claims about the crawl\<close>

lemma claims_won_once:
  "length (filter (\<lambda>p. fst p = url \<and> snd p) (zip urls (fst (claims urls s))))
     = (if url \<in> set urls \<and> url \<notin> visited_urls s then 1 else 0)"
proof (induction urls arbitrary: s)
  case Nil
  then show ?case by simp
next
  case (Cons u urls)
  have "fst (claim u s) = (u \<notin> visited_urls s)" by (simp add: claim_def)
  then show ?case
    using Cons.IH[of "snd (claim u s)"]
    by (auto simp: claims_Cons claim_visited simp del: claims.simps(2))
qed

text \<open>
  Claim C1 fails as stated. The claim reads: the check of \<^verbatim>\<open>visited_urls\<close> followed by the
  insertion returns true exactly once per distinct URL, so each distinct URL is fetched at
  most once, even when it is discovered from several pages processed at the same time.
  Lines 23 and 25 are two statements and nothing in \<^verbatim>\<open>main.py\<close> locks the set. On a page
  that lists \<^verbatim>\<open>/b\<close> twice, with two workers, both calls for \<^verbatim>\<open>http://x.com/b\<close> pass the
  test of line 23 before either inserts: both are at line 25 in the first configuration
  below, and the run ends with the URL requested twice and its match returned twice.
\<close>

theorem two_workers_claim_same_url:
  "run web_twice ''hello'' 2 [[], [], [], [], [0], [1], [0], [1]] (initial, Check ''http://x.com/'')
     = Some (\<lparr>visited_urls = {''http://x.com/''}, requested = [''http://x.com/''], printed = []\<rparr>,
             Pool {#} [Add ''http://x.com/b'', Add ''http://x.com/b''])
   \<and> run web_twice ''hello'' 2
         [[], [], [], [], [0], [1], [0], [1], [0], [1], [0], [1], [0], [1], [0], [1], []]
         (initial, Check ''http://x.com/'')
     = Some (\<lparr>visited_urls = {''http://x.com/b'', ''http://x.com/''},
               requested = [''http://x.com/'', ''http://x.com/b'', ''http://x.com/b''],
               printed = []\<rparr>,
             Done (Inr {#(''hello'', ''http://x.com/b''), (''hello'', ''http://x.com/b'')#}))
   \<and> count_list [''http://x.com/'', ''http://x.com/b'', ''http://x.com/b''] ''http://x.com/b'' = 2"
  by code_simp

text \<open>
  Claim C1, as the code has it: with one worker (\<^verbatim>\<open>--threads 1\<close>) no call runs between
  another call's test and its insertion, and every run requests each URL at most once.
  Run without interruption, the test and the insertion (\<open>claim\<close>) return true exactly
  once per distinct URL: at the first call for it, provided the URL was not visited
  before, and never again. A call whose claim succeeds goes on to the request, a call whose
  claim fails returns nothing and changes nothing.
\<close>

theorem claim_won_once_with_one_worker:
  "(run web query 1 sched (initial, Check url) = Some (s', t') \<longrightarrow> distinct (requested s'))
   \<and> (i < length urls \<longrightarrow>
        fst (claims urls s) ! i = (urls ! i \<notin> visited_urls s \<and> urls ! i \<notin> set (take i urls)))
   \<and> length (filter (\<lambda>p. fst p = u \<and> snd p) (zip urls (fst (claims urls initial))))
        = (if u \<in> set urls then 1 else 0)
   \<and> (fst (claim url s) \<longrightarrow>
        run web query n [[], []] (s, Check url) = Some (snd (claim url s), Get url))
   \<and> (\<not> fst (claim url s) \<longrightarrow>
        run web query n [[]] (s, Check url) = Some (snd (claim url s), Done (Inr {#}))
        \<and> crawl_page web query url s = (Inr {#}, s))
   \<and> distinct (requested (snd (crawl_page web query url initial)))"
proof -
  have a: "run web query 1 sched (initial, Check url) = Some (s', t') \<longrightarrow> distinct (requested s')"
    using one_worker_distinct[of web query sched url "(s', t')"] by simp
  have b: "i < length urls \<longrightarrow>
        fst (claims urls s) ! i = (urls ! i \<notin> visited_urls s \<and> urls ! i \<notin> set (take i urls))"
    by (simp add: claims_nth)
  have c: "length (filter (\<lambda>p. fst p = u \<and> snd p) (zip urls (fst (claims urls initial))))
        = (if u \<in> set urls then 1 else 0)"
    by (simp add: claims_won_once initial_def)
  have d: "fst (claim url s) \<longrightarrow>
        run web query n [[], []] (s, Check url) = Some (snd (claim url s), Get url)"
    by (simp add: claim_def)
  have e: "\<not> fst (claim url s) \<longrightarrow>
        run web query n [[]] (s, Check url) = Some (snd (claim url s), Done (Inr {#}))
        \<and> crawl_page web query url s = (Inr {#}, s)"
    by (simp add: claim_def crawl_page_visited)
  have f: "distinct (requested (snd (crawl_page web query url initial)))"
    by (rule run_requests(1))
  from a b c d e f show ?thesis by blast
qed

theorem claim_won_once_with_one_worker_witness:
  "distinct [''http://x.com/'', ''http://x.com/b'']
   \<and> fst (claims [''http://x.com/b'', ''http://x.com/b''] initial) = [True, False]"
proof -
  have r: "run web_twice ''hello'' 1
         [[], [], [], [], [0], [0], [0], [0], [0], [0], [1], [1], []]
         (initial, Check ''http://x.com/'')
     = Some (\<lparr>visited_urls = {''http://x.com/b'', ''http://x.com/''},
               requested = [''http://x.com/'', ''http://x.com/b''],
               printed = []\<rparr>,
             Done (Inr {#(''hello'', ''http://x.com/b'')#}))"
    by code_simp
  have "fst (claims [''http://x.com/b'', ''http://x.com/b''] initial) = [True, False]"
    by code_simp
  with r claim_won_once_with_one_worker[of web_twice "''hello''"
      "[[], [], [], [], [0], [0], [0], [0], [0], [0], [1], [1], []]"
      "''http://x.com/''"]
  show ?thesis by simp
qed

text \<open>
  Claim C2 does not hold of the code. The claim reads: with \<^verbatim>\<open>maxWorkers = N\<close> at most N
  fetches are ever in flight, the crawl uses one shared pool for the whole run. The
  docstring of \<^verbatim>\<open>crawl_page\<close> gives \<^verbatim>\<open>max_threads\<close> as the maximum number of threads to use,
  and the help of \<^verbatim>\<open>--threads\<close> as the number of threads to use for crawling. Line 39
  opens a new executor of \<open>max_threads\<close> workers in every call that fetched its page. With
  \<open>max_threads = 2\<close>, a start page that links to b and c, b to d and e, c to f: three
  executors are open and three requests are in flight at the same time.
\<close>

theorem more_fetches_in_flight_than_workers:
  "run web_levels ''hello'' 2
       [[], [], [], [], [0], [1], [0], [1], [0], [1], [0], [1], [0], [1],
        [0,0], [0,1], [1,0], [0,0], [0,1], [1,0], [0,0], [0,1], [1,0], [0,0], [0,1], [1,0]]
       (initial, Check ''http://x.com/'')
     = Some (\<lparr>visited_urls =
                 {''http://x.com/f'', ''http://x.com/e'', ''http://x.com/d'',
                  ''http://x.com/c'', ''http://x.com/b'', ''http://x.com/''},
               requested =
                 [''http://x.com/'', ''http://x.com/b'', ''http://x.com/c'',
                  ''http://x.com/d'', ''http://x.com/e'', ''http://x.com/f''],
               printed = []\<rparr>,
             Pool {#}
               [Pool {#} [Wait ''http://x.com/d'', Wait ''http://x.com/e''],
                Pool {#} [Wait ''http://x.com/f'']])
   \<and> in_flight (Pool {#}
               [Pool {#} [Wait ''http://x.com/d'', Wait ''http://x.com/e''],
                Pool {#} [Wait ''http://x.com/f'']]) = 3
   \<and> pools (Pool {#}
               [Pool {#} [Wait ''http://x.com/d'', Wait ''http://x.com/e''],
                Pool {#} [Wait ''http://x.com/f'']]) = 3"
  by code_simp

text \<open>
  Claim C3 fails as stated. The claim reads: on every finite link graph with a cycle the
  crawl terminates, and each node reachable in the cycle is fetched exactly once. On the
  cycle where a lists b twice and b links back to a, with two workers, the two calls for
  b both pass the test of line 23 before either inserts (the race of claim C1): the run
  terminates, with b requested twice.
\<close>

theorem cycle_node_fetched_twice:
  "run web_cycle ''q'' 2
       [[], [], [], [], [0], [1], [0], [1], [0], [1], [0], [1], [0], [1],
        [0,0], [1,0], [0,0], [1,0], [0], [1], []]
       (initial, Check ''http://x.com/a'')
     = Some (\<lparr>visited_urls = {''http://x.com/b'', ''http://x.com/a''},
               requested = [''http://x.com/a'', ''http://x.com/b'', ''http://x.com/b''],
               printed = []\<rparr>,
             Done (Inr {#}))
   \<and> count_list [''http://x.com/a'', ''http://x.com/b'', ''http://x.com/b''] ''http://x.com/b'' = 2"
  by code_simp

text \<open>
  Claim C3, as the code has it. On every finite web, with or without a cycle, and for every
  positive number of workers, the crawl terminates whatever the schedule of its threads:
  the schedule that runs the calls one after the other takes it to its return, with the
  outcome of \<open>crawl_page\<close>; no schedule is longer than a bound that depends on the web
  alone; a call that has not returned can always move, so no run is stuck. A
  URL found in \<^verbatim>\<open>visited_urls\<close> is dropped at line 24, its links are not expanded again.
  When the crawl has returned, the URLs requested are exactly the nodes that the start
  reaches: each of them was fetched at least once, and exactly once when there is one
  worker, or when the calls run one after the other.
\<close>

theorem crawl_terminates_on_every_finite_web:
  assumes "0 < n"
  shows "(\<exists>sched. run web query n sched (initial, Check url)
              = Some (snd (crawl_page web query url initial),
                      Done (fst (crawl_page web query url initial))))
     \<and> (run web query n sched (initial, Check url) = Some (s', t') \<longrightarrow>
          length sched \<le> weight web {} (Check url)
          \<and> (\<not> is_done t' \<longrightarrow> (\<exists>path. step web query n path s' t' \<noteq> None))
          \<and> (is_done t' \<longrightarrow> set (requested s') = {v. reaches web url v})
          \<and> (is_done t' \<and> n = 1 \<longrightarrow>
                count_list (requested s') v = (if reaches web url v then 1 else 0)))
     \<and> (u \<in> visited_urls s \<longrightarrow>
          act web query s (Check u) = Some (s, Done (Inr {#})) \<and> crawl_page web query u s = (Inr {#}, s))
     \<and> count_list (requested (snd (crawl_page web query url initial))) v
          = (if reaches web url v then 1 else 0)"
proof -
  have a: "\<exists>sched. run web query n sched (initial, Check url)
              = Some (snd (crawl_page web query url initial),
                      Done (fst (crawl_page web query url initial)))"
    using sequential_is_a_schedule(1)[OF assms] .
  have b: "length sched \<le> weight web {} (Check url)
          \<and> (\<not> is_done t' \<longrightarrow> (\<exists>path. step web query n path s' t' \<noteq> None))
          \<and> (is_done t' \<longrightarrow> set (requested s') = {v. reaches web url v})
          \<and> (is_done t' \<and> n = 1 \<longrightarrow>
                count_list (requested s') v = (if reaches web url v then 1 else 0))"
    if r: "run web query n sched (initial, Check url) = Some (s', t')"
  proof (intro conjI impI)
    show "length sched \<le> weight web {} (Check url)"
      using run_weight[OF r] by (simp add: initial_def)
    show "\<exists>path. step web query n path s' t' \<noteq> None" if "\<not> is_done t'"
    proof -
      have "\<not> is_queued t'" using run_not_queued[OF r] by simp
      with that have "running t'" by (simp add: running_def)
      from running_can_step[OF assms this] show ?thesis .
    qed
    show "set (requested s') = {v. reaches web url v}" if "is_done t'"
    proof -
      from that obtain found where "t' = Done found" by (cases t') simp_all
      with r done_fetches_reachable(1) show ?thesis by blast
    qed
    show "count_list (requested s') v = (if reaches web url v then 1 else 0)"
      if "is_done t' \<and> n = 1"
    proof -
      from that obtain found where t': "t' = Done found" by (cases t') simp_all
      with r have "set (requested s') = {v. reaches web url v}"
        using done_fetches_reachable(1) by blast
      moreover have "distinct (requested s')"
        using r that one_worker_distinct[of web query sched url "(s', t')"] by simp
      ultimately show ?thesis by (simp add: distinct_count_list)
    qed
  qed
  have c: "u \<in> visited_urls s \<longrightarrow>
          act web query s (Check u) = Some (s, Done (Inr {#})) \<and> crawl_page web query u s = (Inr {#}, s)"
    by (simp add: crawl_page_visited)
  have d: "count_list (requested (snd (crawl_page web query url initial))) v
          = (if reaches web url v then 1 else 0)"
    using run_requests(1,2)[of web query url] by (simp add: distinct_count_list)
  from a b c d show ?thesis by blast
qed

theorem crawl_terminates_on_every_finite_web_witness:
  "{v. reaches web_loop ''http://x.com/a'' v} = {''http://x.com/a'', ''http://x.com/b''}
   \<and> (13 :: nat) \<le> weight web_loop {} (Check ''http://x.com/a'')"
proof -
  define sched :: "nat list list"
    where "sched = [[], [], [], [], [0], [0], [0], [0], [0], [0,0], [0,0], [0], []]"
  define s' where "s' = \<lparr>visited_urls = {''http://x.com/b'', ''http://x.com/a''},
               requested = [''http://x.com/a'', ''http://x.com/b''],
               printed = []\<rparr>"
  have r: "run web_loop ''b'' 1 sched (initial, Check ''http://x.com/a'')
             = Some (s', Done (Inr {#(''b'', ''http://x.com/b'')#}))"
    unfolding sched_def s'_def by code_simp
  have pos: "(0 :: nat) < 1" by simp
  note t = crawl_terminates_on_every_finite_web[OF pos, where web = web_loop and query = "''b''"
      and url = "''http://x.com/a''" and sched = sched and s' = s'
      and t' = "Done (Inr {#(''b'', ''http://x.com/b'')#})"]
  from t have "run web_loop ''b'' 1 sched (initial, Check ''http://x.com/a'')
             = Some (s', Done (Inr {#(''b'', ''http://x.com/b'')#})) \<longrightarrow>
          length sched \<le> weight web_loop {} (Check ''http://x.com/a'')
          \<and> (is_done (Done (Inr {#(''b'', ''http://x.com/b'')#}))
               \<longrightarrow> set (requested s') = {v. reaches web_loop ''http://x.com/a'' v})"
    by blast
  with r have "length sched \<le> weight web_loop {} (Check ''http://x.com/a'')"
    and "set (requested s') = {v. reaches web_loop ''http://x.com/a'' v}"
    by simp_all
  moreover have "length sched = 13" by (simp add: sched_def)
  moreover have "set (requested s') = {''http://x.com/a'', ''http://x.com/b''}"
    by (simp add: s'_def)
  ultimately show ?thesis by simp
qed




text \<open>
  Claim C7 fails as stated. The claim reads: every candidate href is resolved to an
  absolute URL against the URL of the page. The href \<^verbatim>\<open>//[\<close> begins with \<^verbatim>\<open>/\<close>, so it is a
  candidate; \<^verbatim>\<open>urljoin\<close> refuses it with a \<^verbatim>\<open>ValueError\<close>, because the bracket it opens in
  the place of the host is never closed. Line 36 then raises: the page yields no links,
  not even for the anchor to \<^verbatim>\<open>/b\<close> that precedes it, and the call of \<^verbatim>\<open>crawl_page\<close> ends
  with the exception, which line 46 does not catch.
\<close>

theorem bracket_href_is_not_resolved:
  "is_candidate ''http://x.com/'' ''//[''
   \<and> urljoin ''http://x.com/'' ''//['' = Inl ValueError
   \<and> extract_links ''http://x.com/'' [''/b'', ''//[''] = Inl ValueError
   \<and> crawl_page web_bracket ''hello'' ''http://x.com/'' initial
     = (Inl ValueError,
        \<lparr>visited_urls = {''http://x.com/''}, requested = [''http://x.com/''], printed = []\<rparr>)
   \<and> run web_bracket ''hello'' 2 [[], [], [], []] (initial, Check ''http://x.com/'')
     = Some (\<lparr>visited_urls = {''http://x.com/''}, requested = [''http://x.com/''],
               printed = []\<rparr>,
             Done (Inl ValueError))"
  by code_simp

text \<open>
  Claim C7, as the code has it. Every candidate href that \<^verbatim>\<open>urljoin\<close> accepts is resolved
  against the URL of the page, and on a page whose URL is an \<^verbatim>\<open>http\<close> or \<^verbatim>\<open>https\<close> URL with a
  host the result is absolute: it starts with the scheme of the page and \<^verbatim>\<open>://\<close>. When
  \<^verbatim>\<open>urljoin\<close> accepts every candidate of the page, and only then, the page has its list of
  links: the values of \<^verbatim>\<open>urljoin(url, href)\<close> for the candidates, one per candidate, in
  document order, and nothing else. On the page \<^verbatim>\<open>http://x.com/a/\<close> the href \<^verbatim>\<open>/b\<close>
  resolves to \<^verbatim>\<open>http://x.com/b\<close>, and the href \<^verbatim>\<open>http://x.com/a/c\<close> to itself.
\<close>

theorem links_resolved_against_page_url:
  "(urlparse url [] = Inr (scheme, netloc, path, params, query, fragment)
        \<and> (scheme = ''http'' \<or> scheme = ''https'') \<and> netloc \<noteq> []
        \<and> is_candidate url href \<and> urljoin url href = Inr link
        \<longrightarrow> startswith link (scheme @ ''://''))
   \<and> ((\<exists>links. extract_links url hs = Inr links) \<longleftrightarrow>
        (\<forall>h \<in> set hs. is_candidate url h \<longrightarrow> urljoin url h \<noteq> Inl ValueError))
   \<and> (extract_links url hs = Inr links \<longrightarrow>
        map Inr links = map (urljoin url) (filter (is_candidate url) hs)
        \<and> length links = length (filter (is_candidate url) hs))
   \<and> (urlparse url [] = Inr (scheme, netloc, path, params, query, fragment)
        \<and> (scheme = ''http'' \<or> scheme = ''https'') \<and> netloc \<noteq> []
        \<and> extract_links url hs = Inr links \<and> link \<in> set links
        \<longrightarrow> startswith link (scheme @ ''://''))
   \<and> urljoin ''http://x.com/a/'' ''/b'' = Inr ''http://x.com/b''
   \<and> urljoin ''http://x.com/a/'' ''http://x.com/a/c'' = Inr ''http://x.com/a/c''
   \<and> extract_links ''http://x.com/a/'' [''/b'', ''http://x.com/a/c'']
        = Inr [''http://x.com/b'', ''http://x.com/a/c'']"
proof -
  have a: "startswith l (scheme @ ''://'')"
    if "urlparse url [] = Inr (scheme, netloc, path, params, query, fragment)"
      and "scheme = ''http'' \<or> scheme = ''https''" and "netloc \<noteq> []"
      and "is_candidate url h" and "urljoin url h = Inr l" for h l
    using that by (rule candidate_resolves_to_absolute_url)
  have "(\<exists>links. extract_links url hs = Inr links) \<longleftrightarrow> extract_links url hs \<noteq> Inl ValueError"
    by (cases "extract_links url hs") (auto intro: one_error)
  then have b: "(\<exists>links. extract_links url hs = Inr links) \<longleftrightarrow>
        (\<forall>h \<in> set hs. is_candidate url h \<longrightarrow> urljoin url h \<noteq> Inl ValueError)"
    by (auto simp: extract_links_raises)
  have m: "map Inr links = map (urljoin url) (filter (is_candidate url) hs)"
    if "extract_links url hs = Inr links"
    using that by (simp add: extract_links_returns)
  have c: "length links = length (filter (is_candidate url) hs)"
    if "extract_links url hs = Inr links"
    using m[OF that] by (metis length_map)
  have d: "startswith link (scheme @ ''://'')"
    if p: "urlparse url [] = Inr (scheme, netloc, path, params, query, fragment)"
      and s: "scheme = ''http'' \<or> scheme = ''https''" and n: "netloc \<noteq> []"
      and e: "extract_links url hs = Inr links" and l: "link \<in> set links"
  proof -
    from l have "Inr link \<in> set (map Inr links :: (error + string) list)" by auto
    then have "Inr link \<in> set (map (urljoin url) (filter (is_candidate url) hs))"
      unfolding m[OF e] .
    then obtain h where "is_candidate url h" and "urljoin url h = Inr link" by auto
    with a[OF p s n] show ?thesis by blast
  qed
  have x: "urljoin ''http://x.com/a/'' ''/b'' = Inr ''http://x.com/b''"
    by code_simp
  have y: "urljoin ''http://x.com/a/'' ''http://x.com/a/c'' = Inr ''http://x.com/a/c''"
    by code_simp
  have z: "extract_links ''http://x.com/a/'' [''/b'', ''http://x.com/a/c'']
        = Inr [''http://x.com/b'', ''http://x.com/a/c'']"
    by code_simp
  from a b m c d x y z show ?thesis by blast
qed

theorem links_resolved_against_page_url_witness:
  "urlparse ''https://x.com/a/'' [] = Inr (''https'', ''x.com'', ''/a/'', [], [], [])
   \<and> extract_links ''https://x.com/a/'' [''../up'', ''/b?x=1''] = Inr [''https://x.com/b?x=1'']
   \<and> startswith ''https://x.com/b?x=1'' ''https://''"
proof -
  have p: "urlparse ''https://x.com/a/'' [] = Inr (''https'', ''x.com'', ''/a/'', [], [], [])"
    by code_simp
  have l: "extract_links ''https://x.com/a/'' [''../up'', ''/b?x=1''] = Inr [''https://x.com/b?x=1'']"
    by code_simp
  from links_resolved_against_page_url[where url = "''https://x.com/a/''"
      and hs = "[''../up'', ''/b?x=1'']" and scheme = "''https''" and netloc = "''x.com''"
      and path = "''/a/''" and params = "[]" and query = "[]" and fragment = "[]"
      and links = "[''https://x.com/b?x=1'']" and link = "''https://x.com/b?x=1''"]
  have "urlparse ''https://x.com/a/'' [] = Inr (''https'', ''x.com'', ''/a/'', [], [], [])
        \<and> (''https'' = ''http'' \<or> ''https'' = ''https'') \<and> ''x.com'' \<noteq> []
        \<and> extract_links ''https://x.com/a/'' [''../up'', ''/b?x=1''] = Inr [''https://x.com/b?x=1'']
        \<and> ''https://x.com/b?x=1'' \<in> set [''https://x.com/b?x=1'']
        \<longrightarrow> startswith ''https://x.com/b?x=1'' (''https'' @ ''://'')"
    by blast
  with p l have "startswith ''https://x.com/b?x=1'' (''https'' @ ''://'')"
    by simp
  with p l show ?thesis by simp
qed

text \<open>
  Claim C9: the visited set only grows. No move of any call, under any schedule, removes a
  URL from \<^verbatim>\<open>visited_urls\<close>; when a call of \<^verbatim>\<open>crawl_page\<close> has returned, its URL is in the
  set, whether the fetch succeeded or failed; a URL is inserted before it is requested
  (every requested URL is in the set); and a call on a URL that is in the set returns at
  once, without a request, so a URL whose fetch failed is not fetched again when it is
  found again later in the run.
\<close>

theorem visited_urls_only_grows:
  "(run web query n sched (s, t) = Some (s', t') \<longrightarrow> visited_urls s \<subseteq> visited_urls s')
   \<and> (run web query n sched (s, Check url) = Some (s', t') \<and> is_done t'
        \<longrightarrow> url \<in> visited_urls s')
   \<and> (run web query n sched (initial, Check url) = Some (s', t')
        \<longrightarrow> set (requested s') \<subseteq> visited_urls s')
   \<and> (url \<in> visited_urls s \<longrightarrow> act web query s (Check url) = Some (s, Done (Inr {#})))
   \<and> visited_urls s \<subseteq> visited_urls (snd (crawl_page web query url s))
   \<and> url \<in> visited_urls (snd (crawl_page web query url s))
   \<and> crawl_page web query url (snd (crawl_page web query url s))
        = (Inr {#}, snd (crawl_page web query url s))"
proof -
  have a: "run web query n sched (s, t) = Some (s', t') \<longrightarrow> visited_urls s \<subseteq> visited_urls s'"
    using run_visited_grows[of web query n sched "(s, t)" "(s', t')"] by simp
  have b: "run web query n sched (s, Check url) = Some (s', t') \<and> is_done t'
        \<longrightarrow> url \<in> visited_urls s'"
    using returned_is_visited by blast
  have c: "run web query n sched (initial, Check url) = Some (s', t')
        \<longrightarrow> set (requested s') \<subseteq> visited_urls s'"
    using run_covered[of web query n sched url "(s', t')"] by (auto simp: covered_def)
  have d: "url \<in> visited_urls s \<longrightarrow> act web query s (Check url) = Some (s, Done (Inr {#}))"
    by simp
  obtain new where e: "crawl_effect web query s new (crawl_page web query url s)"
    and h: "url \<in> visited_urls s \<or> (new \<noteq> [] \<and> hd new = url)"
    by (rule crawl_page_effect)
  have v: "visited_urls (snd (crawl_page web query url s)) = visited_urls s \<union> set new"
    using e by (simp add: crawl_effect_def)
  have f: "visited_urls s \<subseteq> visited_urls (snd (crawl_page web query url s))"
    using v by simp
  have g: "url \<in> visited_urls (snd (crawl_page web query url s))"
    using v h by (cases new) auto
  from a b c d f g crawl_page_visited[OF g] show ?thesis by blast
qed

theorem visited_urls_only_grows_witness:
  "{''http://x.com/''} \<subseteq> visited_urls (snd (crawl_page web_fault ''hello'' ''http://x.com/b''
       \<lparr>visited_urls = {''http://x.com/''}, requested = [''http://x.com/''], printed = []\<rparr>))
   \<and> ''http://x.com/b'' \<in> visited_urls (snd (crawl_page web_fault ''hello'' ''http://x.com/b''
       \<lparr>visited_urls = {''http://x.com/''}, requested = [''http://x.com/''], printed = []\<rparr>))
   \<and> set [''http://x.com/'', ''http://x.com/b'', ''http://x.com/c'', ''http://x.com/d'']
        \<subseteq> {''http://x.com/d'', ''http://x.com/c'', ''http://x.com/b'', ''http://x.com/''}"
proof -
  define sched :: "nat list list"
    where "sched = [[], [], [], [], [0], [1], [0], [0], [0], [0], [1], [1], [1], [1], [1],
                    [2], [2], [2], [2], [2], []]"
  define s' where "s' = \<lparr>visited_urls =
                 {''http://x.com/d'', ''http://x.com/c'', ''http://x.com/b'', ''http://x.com/''},
               requested =
                 [''http://x.com/'', ''http://x.com/b'', ''http://x.com/c'', ''http://x.com/d''],
               printed =
                 [''Error crawling http://x.com/b: 500 Server Error: Internal Server Error for url: http://x.com/b'',
                  ''Error crawling http://x.com/d: timed out'']\<rparr>"
  define s0 where "s0 = \<lparr>visited_urls = {''http://x.com/''}, requested = [''http://x.com/''],
               printed = []\<rparr>"
  have r: "run web_fault ''hello'' 2 sched (initial, Check ''http://x.com/'')
             = Some (s', Done (Inr {#(''hello'', ''http://x.com/c'')#}))"
    unfolding sched_def s'_def by code_simp
  note t = visited_urls_only_grows[where web = web_fault and query = "''hello''" and n = 2
      and sched = sched and s' = s' and t' = "Done (Inr {#(''hello'', ''http://x.com/c'')#})"]
  from t[where url = "''http://x.com/''" and s = s0 and t = "Check ''http://x.com/''"]
  have "run web_fault ''hello'' 2 sched (initial, Check ''http://x.com/'')
             = Some (s', Done (Inr {#(''hello'', ''http://x.com/c'')#}))
          \<longrightarrow> set (requested s') \<subseteq> visited_urls s'"
    by blast
  with r have a: "set (requested s') \<subseteq> visited_urls s'" by simp
  from t[where url = "''http://x.com/b''" and s = s0 and t = "Check ''http://x.com/b''"]
  have b: "visited_urls s0 \<subseteq> visited_urls (snd (crawl_page web_fault ''hello'' ''http://x.com/b'' s0))"
    and c: "''http://x.com/b'' \<in> visited_urls (snd (crawl_page web_fault ''hello'' ''http://x.com/b'' s0))"
    by blast+
  from a b c show ?thesis by (simp add: s'_def s0_def)
qed



end
